theory Spec2Isabelle
  imports Main
begin

section \<open>JavaScript strings\<close>

text \<open>
  A JavaScript string is a sequence of UTF-16 code units; \<open>length\<close>, \<open>substring\<close>,
  \<open>slice\<close>, \<open>split\<close> and \<open>startsWith\<close> count code units. The model writes a string as a
  \<^typ>\<open>string\<close> whose characters are the code units below 256, which covers every text
  the handlers themselves produce.
\<close>

definition is_ws :: "char \<Rightarrow> bool" where
  \<comment> \<open>the white space and line terminators \<open>String.prototype.trim\<close> strips, below 256:
      TAB, LF, VT, FF, CR, SPACE and NBSP\<close>
  "is_ws c \<longleftrightarrow> c \<in> set [CHR 0x09, CHR 0x0A, CHR 0x0B, CHR 0x0C, CHR 0x0D, CHR 0x20, CHR 0xA0]"

definition trim :: "string \<Rightarrow> string" where
  "trim s = rev (dropWhile is_ws (rev (dropWhile is_ws s)))"

fun split_on :: "char \<Rightarrow> string \<Rightarrow> string list" where
  \<comment> \<open>\<open>s.split(c)\<close> for a one-character separator: \<open>''''.split(c) = ['''']\<close>\<close>
  "split_on c [] = [[]]"
| "split_on c (x # xs) =
     (if x = c then [] # split_on c xs
      else (case split_on c xs of [] \<Rightarrow> [[x]] | w # ws \<Rightarrow> (x # w) # ws))"

fun join :: "string \<Rightarrow> string list \<Rightarrow> string" where
  "join sep [] = []"
| "join sep [w] = w"
| "join sep (w # v # ws) = w @ sep @ join sep (v # ws)"

definition startsWith :: "string \<Rightarrow> string \<Rightarrow> bool" where
  \<comment> \<open>\<open>s.startsWith(p)\<close>\<close>
  "startsWith p s \<longleftrightarrow> take (length p) s = p"

section \<open>JSON values and \<open>JSON.parse\<close>\<close>

text \<open>
  The value \<open>JSON.parse\<close> returns. A number keeps its literal text: the handlers only
  test a number for truthiness and append it to a string. An object keeps its members
  in source order; a later duplicate key overrides an earlier one on lookup.
\<close>

datatype json =
    JNull
  | JBool bool
  | JNum string
  | JStr string
  | JArr "json list"
  | JObj "(string \<times> json) list"

definition json_ws :: "char \<Rightarrow> bool" where
  "json_ws c \<longleftrightarrow> c \<in> set [CHR 0x20, CHR 0x09, CHR 0x0A, CHR 0x0D]"

definition skip_ws :: "string \<Rightarrow> string" where
  "skip_ws s = dropWhile json_ws s"

definition is_digit :: "char \<Rightarrow> bool" where
  "is_digit c \<longleftrightarrow> c \<in> set ''0123456789''"

definition hex_val :: "char \<Rightarrow> nat option" where
  "hex_val c = map_of (zip ''0123456789abcdefABCDEF''
      [0, 1, 2, 3, 4, 5, 6, 7, 8, 9, 10, 11, 12, 13, 14, 15, 10, 11, 12, 13, 14, 15]) c"

definition unicode_escape :: "char \<Rightarrow> char \<Rightarrow> char \<Rightarrow> char \<Rightarrow> char option" where
  \<comment> \<open>\<open>\uXXXX\<close>; a code unit of 256 or more has no character in this model\<close>
  "unicode_escape a b c d =
     (case (hex_val a, hex_val b, hex_val c, hex_val d) of
        (Some h3, Some h2, Some h1, Some h0) \<Rightarrow>
          (let n = ((h3 * 16 + h2) * 16 + h1) * 16 + h0
           in if n < 256 then Some (char_of n) else None)
      | _ \<Rightarrow> None)"

definition simple_escape :: "char \<Rightarrow> char option" where
  "simple_escape e = map_of
     [(CHR 0x22, CHR 0x22), (CHR 0x5C, CHR 0x5C), (CHR ''/'', CHR ''/''),
      (CHR ''b'', CHR 0x08), (CHR ''f'', CHR 0x0C), (CHR ''n'', CHR 0x0A),
      (CHR ''r'', CHR 0x0D), (CHR ''t'', CHR 0x09)] e"

fun parse_string :: "string \<Rightarrow> (string \<times> string) option" where
  \<comment> \<open>the text after an opening quote: the string's characters and what follows the
      closing quote\<close>
  "parse_string [] = None"
| "parse_string (c # cs) =
     (if c = CHR 0x22 then Some ([], cs)
      else if c = CHR 0x5C then
        (case cs of
           [] \<Rightarrow> None
         | e # r \<Rightarrow>
             if e = CHR ''u'' then
               (case r of
                  h3 # h2 # h1 # h0 # r' \<Rightarrow>
                    (case unicode_escape h3 h2 h1 h0 of
                       None \<Rightarrow> None
                     | Some ch \<Rightarrow> map_option (\<lambda>(s, t). (ch # s, t)) (parse_string r'))
                | _ \<Rightarrow> None)
             else
               (case simple_escape e of
                  None \<Rightarrow> None
                | Some ch \<Rightarrow> map_option (\<lambda>(s, t). (ch # s, t)) (parse_string r)))
      else if (of_char c :: nat) < 32 then None
      else map_option (\<lambda>(s, t). (c # s, t)) (parse_string cs))"

definition parse_digits :: "string \<Rightarrow> (string \<times> string) option" where
  \<comment> \<open>one digit or more\<close>
  "parse_digits s =
     (let ds = takeWhile is_digit s
      in if ds = [] then None else Some (ds, dropWhile is_digit s))"

definition parse_number :: "string \<Rightarrow> (string \<times> string) option" where
  \<comment> \<open>\<open>-? (0 | [1-9][0-9]*) (. [0-9]+)? ([eE] [+-]? [0-9]+)?\<close>: the literal and the rest\<close>
  "parse_number s =
     (let (sign, s1) = (if startsWith ''-'' s then (''-'', drop 1 s) else ([], s))
      in case parse_digits s1 of
           None \<Rightarrow> None
         | Some (ip, s2) \<Rightarrow>
             if length ip > 1 \<and> hd ip = CHR ''0'' then None
             else
               (case (if startsWith ''.'' s2
                      then map_option (\<lambda>(ds, t). (''.'' @ ds, t)) (parse_digits (drop 1 s2))
                      else Some ([], s2)) of
                  None \<Rightarrow> None
                | Some (fp, s3) \<Rightarrow>
                    (case (if startsWith ''e'' s3 \<or> startsWith ''E'' s3
                           then (let s4 = drop 1 s3;
                                     (es, s5) = (if startsWith ''+'' s4 \<or> startsWith ''-'' s4
                                                 then (take 1 s4, drop 1 s4) else ([], s4))
                                 in map_option (\<lambda>(ds, t). (take 1 s3 @ es @ ds, t))
                                      (parse_digits s5))
                           else Some ([], s3)) of
                       None \<Rightarrow> None
                     | Some (ep, s6) \<Rightarrow> Some (sign @ ip @ fp @ ep, s6))))"

fun parse_value :: "nat \<Rightarrow> string \<Rightarrow> (json \<times> string) option"
  and parse_elements :: "nat \<Rightarrow> string \<Rightarrow> (json list \<times> string) option"
  and parse_members :: "nat \<Rightarrow> string \<Rightarrow> ((string \<times> json) list \<times> string) option"
where
  "parse_value 0 s = None"
| "parse_value (Suc n) s =
     (case s of
        [] \<Rightarrow> None
      | c # r \<Rightarrow>
          if c = CHR ''{'' then
            (case skip_ws r of
               [] \<Rightarrow> None
             | d # r2 \<Rightarrow>
                 if d = CHR ''}'' then Some (JObj [], r2)
                 else map_option (\<lambda>(kvs, t). (JObj kvs, t)) (parse_members n (d # r2)))
          else if c = CHR ''['' then
            (case skip_ws r of
               [] \<Rightarrow> None
             | d # r2 \<Rightarrow>
                 if d = CHR '']'' then Some (JArr [], r2)
                 else map_option (\<lambda>(vs, t). (JArr vs, t)) (parse_elements n (d # r2)))
          else if c = CHR 0x22 then map_option (\<lambda>(str, t). (JStr str, t)) (parse_string r)
          else if startsWith ''true'' s then Some (JBool True, drop 4 s)
          else if startsWith ''false'' s then Some (JBool False, drop 5 s)
          else if startsWith ''null'' s then Some (JNull, drop 4 s)
          else map_option (\<lambda>(lit, t). (JNum lit, t)) (parse_number s))"
| "parse_elements 0 s = None"
| "parse_elements (Suc n) s =
     (case parse_value n s of
        None \<Rightarrow> None
      | Some (v, r) \<Rightarrow>
          (case skip_ws r of
             [] \<Rightarrow> None
           | d # r2 \<Rightarrow>
               if d = CHR '']'' then Some ([v], r2)
               else if d = CHR '','' then
                 map_option (\<lambda>(vs, t). (v # vs, t)) (parse_elements n (skip_ws r2))
               else None))"
| "parse_members 0 s = None"
| "parse_members (Suc n) s =
     (case s of
        [] \<Rightarrow> None
      | q # r \<Rightarrow>
          if q \<noteq> CHR 0x22 then None
          else
            (case parse_string r of
               None \<Rightarrow> None
             | Some (k, r1) \<Rightarrow>
                 (case skip_ws r1 of
                    [] \<Rightarrow> None
                  | col # r2 \<Rightarrow>
                      if col \<noteq> CHR '':'' then None
                      else
                        (case parse_value n (skip_ws r2) of
                           None \<Rightarrow> None
                         | Some (v, r3) \<Rightarrow>
                             (case skip_ws r3 of
                                [] \<Rightarrow> None
                              | d # r4 \<Rightarrow>
                                  if d = CHR ''}'' then Some ([(k, v)], r4)
                                  else if d = CHR '','' then
                                    map_option (\<lambda>(kvs, t). ((k, v) # kvs, t))
                                      (parse_members n (skip_ws r4))
                                  else None)))))"

definition JSON_parse :: "string \<Rightarrow> json option" where
  \<comment> \<open>\<open>JSON.parse(s)\<close>; \<open>None\<close> is the \<open>SyntaxError\<close>. The fuel \<open>2 * length s + 2\<close> is enough
      for every text that some fuel parses (lemma \<open>JSON_parse_complete\<close> below).\<close>
  "JSON_parse s =
     (case parse_value (2 * length s + 2) (skip_ws s) of
        None \<Rightarrow> None
      | Some (v, r) \<Rightarrow> if skip_ws r = [] then Some v else None)"

section \<open>Reading a parsed response\<close>

text \<open>
  A JavaScript value that may be \<open>undefined\<close> is a \<^typ>\<open>json option\<close>, \<open>None\<close> being
  \<open>undefined\<close>. A \<open>TypeError\<close> is a further \<open>None\<close> around it.
\<close>

type_synonym jsval = "json option"

definition get_prop :: "string \<Rightarrow> json \<Rightarrow> jsval" where
  \<comment> \<open>\<open>v.k\<close> for one of the keys \<open>choices\<close>, \<open>delta\<close>, \<open>message\<close>, \<open>content\<close>, on a value
      that is not \<open>null\<close>: only an object has such a property\<close>
  "get_prop k v = (case v of JObj kvs \<Rightarrow> map_of (rev kvs) k | _ \<Rightarrow> None)"

definition index0 :: "json \<Rightarrow> jsval" where
  \<comment> \<open>\<open>v[0]\<close> on a value that is not \<open>null\<close>\<close>
  "index0 v =
     (case v of
        JArr vs \<Rightarrow> (case vs of [] \<Rightarrow> None | x # _ \<Rightarrow> Some x)
      | JStr s \<Rightarrow> (case s of [] \<Rightarrow> None | c # _ \<Rightarrow> Some (JStr [c]))
      | JObj kvs \<Rightarrow> map_of (rev kvs) ''0''
      | _ \<Rightarrow> None)"

definition opt_chain :: "(json \<Rightarrow> jsval) \<Rightarrow> jsval \<Rightarrow> jsval" where
  \<comment> \<open>\<open>x?.f\<close>: \<open>undefined\<close> when \<open>x\<close> is \<open>null\<close> or \<open>undefined\<close>\<close>
  "opt_chain f x = (case x of None \<Rightarrow> None | Some JNull \<Rightarrow> None | Some v \<Rightarrow> f v)"

definition num_nonzero :: "string \<Rightarrow> bool" where
  \<comment> \<open>a number literal is truthy when its mantissa has a digit other than 0\<close>
  "num_nonzero lit \<longleftrightarrow>
     (\<exists>c \<in> set (takeWhile (\<lambda>c. c \<noteq> CHR ''e'' \<and> c \<noteq> CHR ''E'') lit). c \<in> set ''123456789'')"

definition truthy :: "jsval \<Rightarrow> bool" where
  "truthy x =
     (case x of
        None \<Rightarrow> False
      | Some JNull \<Rightarrow> False
      | Some (JBool b) \<Rightarrow> b
      | Some (JNum lit) \<Rightarrow> num_nonzero lit
      | Some (JStr s) \<Rightarrow> s \<noteq> []
      | Some _ \<Rightarrow> True)"

fun toString :: "json \<Rightarrow> string" where
  \<comment> \<open>the text \<open>s += v\<close> appends; a number is appended as its literal was written\<close>
  "toString JNull = ''null''"
| "toString (JBool b) = (if b then ''true'' else ''false'')"
| "toString (JNum lit) = lit"
| "toString (JStr s) = s"
| "toString (JArr vs) = join '','' (map (\<lambda>v. case v of JNull \<Rightarrow> [] | _ \<Rightarrow> toString v) vs)"
| "toString (JObj kvs) = ''[object Object]''"

definition delta_content :: "json \<Rightarrow> jsval option" where
  \<comment> \<open>\<open>parsed.choices?.[0]?.delta?.content\<close>; \<open>None\<close> is the \<open>TypeError\<close> of reading
      \<open>choices\<close> of \<open>null\<close>\<close>
  "delta_content parsed =
     (if parsed = JNull then None
      else Some (opt_chain (get_prop ''content'')
                  (opt_chain (get_prop ''delta'') (opt_chain index0 (get_prop ''choices'' parsed)))))"

section \<open>Conversations, events and the environment\<close>

datatype role = User | Assistant

text \<open>Of an attachment, the fields the handlers read.\<close>

record processed_file =
  name :: string
  mimeType :: string
  textContent :: "string option"

record message =
  role :: role
  content :: string
  timestamp :: nat
  files :: "processed_file list option"

record chat =
  chat_id :: string
  userId :: string
  title :: string
  messages :: "message list"

text \<open>The collection of conversations: the documents in insertion order.\<close>

type_synonym store = "chat list"

datatype event =
    UserMessage message
  | Chunk json
  | Complete message string
  | Error message string

text \<open>
  What the handlers do not decide: the upstream provider's answer (the text of each read
  of its body, as \<open>TextDecoder.decode\<close> returns it, and whether the body then ends or a
  read fails), whether each of the two store writes succeeds, and the clock. The request
  sent upstream (the history and, in the simulate route, the description of the attached
  files) has no part in what follows and is left out. The lookups of the store raise
  nothing, and the consumer keeps the stream open, so that \<open>enqueue\<close> raises nothing.
\<close>

datatype body_end = Done | ReadFails

record upstream_response =
  ok :: bool
  has_reader :: bool
  reads :: "string list"
  ending :: body_end

datatype upstream = FetchRejects | Responds upstream_response

record env =
  upstream :: upstream
  save_try_ok :: bool
  save_catch_ok :: bool
  now_user :: nat
  now_reply :: nat
  now_error :: nat

section \<open>The decode loop of \<open>POST /api/chats/[chatId]/stream\<close>\<close>

definition lineIncrement :: "string \<Rightarrow> jsval" where
  \<comment> \<open>the body of \<open>for (const line of lines)\<close>: the content appended and emitted for one
      line, if any\<close>
  "lineIncrement line =
     (if startsWith ''data: '' line then
        (let data = trim (drop 6 line)
         in if data = ''[DONE]'' then None
            else if data = [] then None
            else (case JSON_parse data of
                    None \<Rightarrow> None
                  | Some parsed \<Rightarrow>
                      (case delta_content parsed of
                         None \<Rightarrow> None
                       | Some c \<Rightarrow> if truthy c then c else None)))
      else None)"

fun lines_loop :: "string list \<Rightarrow> string \<times> event list \<Rightarrow> string \<times> event list" where
  "lines_loop [] acc = acc"
| "lines_loop (line # ls) (fullResponse, evs) =
     lines_loop ls
       (case lineIncrement line of
          None \<Rightarrow> (fullResponse, evs)
        | Some c \<Rightarrow> (fullResponse @ toString c, evs @ [Chunk c]))"

fun read_loop :: "string list \<Rightarrow> string \<times> event list \<Rightarrow> string \<times> event list" where
  \<comment> \<open>\<open>while (true)\<close> over the reads that return a value; each read is split on its own\<close>
  "read_loop [] acc = acc"
| "read_loop (chunk # rest) acc =
     read_loop rest (lines_loop (split_on CHR ''\<newline>'' chunk) acc)"

definition chunk_contents :: "event list \<Rightarrow> json list" where
  "chunk_contents evs = concat (map (\<lambda>e. case e of Chunk c \<Rightarrow> [c] | _ \<Rightarrow> []) evs)"

definition decode :: "string list \<Rightarrow> json list" where
  \<comment> \<open>the increments the decode loop emits for the given reads, in order\<close>
  "decode rs = chunk_contents (snd (read_loop rs ([], [])))"

definition readIncrements :: "string \<Rightarrow> json list" where
  \<comment> \<open>the increments of one read: those of its lines, in order\<close>
  "readIncrements chunk = List.map_filter lineIncrement (split_on CHR ''\<newline>'' chunk)"

section \<open>The conversation store\<close>

definition findOne :: "store \<Rightarrow> string \<Rightarrow> string \<Rightarrow> chat option" where
  \<comment> \<open>\<open>Chat.findOne({ _id: chatId, userId })\<close>: the first document matching both fields\<close>
  "findOne st cid uid = find (\<lambda>c. chat_id c = cid \<and> userId c = uid) st"

fun findOneAndDelete :: "store \<Rightarrow> string \<Rightarrow> string \<Rightarrow> chat option \<times> store" where
  \<comment> \<open>\<open>Chat.findOneAndDelete({ _id: chatId, userId })\<close>: removes the first document
      matching both fields and returns it\<close>
  "findOneAndDelete [] cid uid = (None, [])"
| "findOneAndDelete (c # st) cid uid =
     (if chat_id c = cid \<and> userId c = uid then (Some c, st)
      else (case findOneAndDelete st cid uid of (r, st') \<Rightarrow> (r, c # st')))"

definition save :: "store \<Rightarrow> chat \<Rightarrow> store" where
  \<comment> \<open>\<open>chat.save()\<close>: the document with this id is rewritten as a whole\<close>
  "save st c = map (\<lambda>d. if chat_id d = chat_id c then c else d) st"

section \<open>Requests and responses\<close>

text \<open>
  A request: the identity \<open>auth()\<close> returns, the route parameter, and the two fields read
  from the JSON body, \<open>None\<close> being an absent or \<open>null\<close> field; \<open>message\<close> is a string when
  present, as the client sends it.
\<close>

record request =
  auth_userId :: "string option"
  param_chatId :: string
  body_message :: "string option"
  body_files :: "processed_file list option"

datatype response =
    Text_response nat string
  | Json_error nat string
  | Event_stream "event list"
  | Json_chat chat
  | Json_deleted

fun status_of :: "response \<Rightarrow> nat" where
  "status_of (Text_response code body) = code"
| "status_of (Json_error code err) = code"
| "status_of (Event_stream evs) = 200"
| "status_of (Json_chat c) = 200"
| "status_of Json_deleted = 200"

section \<open>\<open>GET\<close> and \<open>DELETE /api/chats/[chatId]\<close>\<close>

definition GET_chat :: "store \<Rightarrow> string option \<Rightarrow> string \<Rightarrow> response" where
  "GET_chat st auth cid =
     (case auth of
        None \<Rightarrow> Json_error 401 ''Unauthorized''
      | Some uid \<Rightarrow>
          (case findOne st cid uid of
             None \<Rightarrow> Json_error 404 ''Chat not found''
           | Some c \<Rightarrow> Json_chat c))"

definition DELETE_chat :: "store \<Rightarrow> string option \<Rightarrow> string \<Rightarrow> response \<times> store" where
  "DELETE_chat st auth cid =
     (case auth of
        None \<Rightarrow> (Json_error 401 ''Unauthorized'', st)
      | Some uid \<Rightarrow>
          (case findOneAndDelete st cid uid of
             (None, st') \<Rightarrow> (Json_error 404 ''Chat not found'', st')
           | (Some deletedChat, st') \<Rightarrow> (Json_deleted, st')))"

section \<open>The exchange handlers\<close>

text \<open>
  The three \<open>POST\<close> handlers open alike: the caller's identity, the body, the
  message test \<open>!message?.trim()\<close>, the owned lookup, and the user message pushed on the
  document in memory. Nothing is written to the store before \<open>chat.save()\<close>.
\<close>

definition message_missing :: "string option \<Rightarrow> bool" where
  \<comment> \<open>\<open>!message?.trim()\<close>\<close>
  "message_missing m = (case m of None \<Rightarrow> True | Some text \<Rightarrow> trim text = [])"

definition deriveTitle :: "string \<Rightarrow> string" where
  \<comment> \<open>\<open>firstWords = message.trim().split(' ').slice(0, 6).join(' ')\<close>, then
      \<open>firstWords.length > 50 ? firstWords.substring(0, 47) + '...' : firstWords\<close>\<close>
  "deriveTitle text =
     (let firstWords = join '' '' (take 6 (split_on CHR '' '' (trim text)))
      in if length firstWords > 50 then take 47 firstWords @ ''...'' else firstWords)"

definition push_message :: "chat \<Rightarrow> message \<Rightarrow> chat" where
  \<comment> \<open>\<open>chat.messages.push(m)\<close>\<close>
  "push_message c m = c\<lparr>messages := messages c @ [m]\<rparr>"

definition update_title :: "chat \<Rightarrow> string \<Rightarrow> chat" where
  \<comment> \<open>\<open>if (chat.messages.length === 2) chat.title = ...\<close>\<close>
  "update_title c text =
     (if length (messages c) = 2 then c\<lparr>title := deriveTitle text\<rparr> else c)"

definition sorry_text :: string where
  "sorry_text = ''Sorry, I could not generate a response.''"

definition fallback_text :: string where
  "fallback_text = ''I received your message but there was an issue with the streaming response. Please try again.''"

definition error_text :: string where
  "error_text = ''Sorry, I encountered an error while processing your message. Please try again.''"

definition error_class :: string where
  "error_class = ''AI service temporarily unavailable''"

text \<open>How the \<open>try\<close> block of a stream ends: the events enqueued and the document in memory.\<close>

datatype try_result = Thrown "event list" chat | Completed "event list" chat

definition catch_branch :: "store \<Rightarrow> env \<Rightarrow> event list \<Rightarrow> chat \<Rightarrow> event list \<times> store" where
  \<comment> \<open>\<open>catch (error)\<close>: push the error message, save, enqueue the error event. When this
      save rejects, \<open>start\<close> rejects after \<open>finally\<close> and nothing more is enqueued.\<close>
  "catch_branch st e evs c =
     (let errorMessage = \<lparr>role = Assistant, content = error_text,
                           timestamp = now_error e, files = None\<rparr>;
          c' = push_message c errorMessage
      in if save_catch_ok e then (evs @ [Error errorMessage error_class], save st c')
         else (evs, st))"

definition run_stream :: "store \<Rightarrow> env \<Rightarrow> try_result \<Rightarrow> event list \<times> store" where
  \<comment> \<open>\<open>try { ... } catch (error) { ... } finally { controller.close() }\<close>\<close>
  "run_stream st e r =
     (case r of
        Completed evs c \<Rightarrow> (evs, save st c)
      | Thrown evs c \<Rightarrow> catch_branch st e evs c)"

definition finalize :: "env \<Rightarrow> string \<Rightarrow> event list \<Rightarrow> chat \<Rightarrow> string \<Rightarrow> try_result" where
  \<comment> \<open>the end of both \<open>try\<close> blocks: push the assistant message, derive the title, save,
      enqueue the completion\<close>
  "finalize e text evs c reply =
     (let assistantMessage = \<lparr>role = Assistant, content = reply,
                               timestamp = now_reply e, files = None\<rparr>;
          c2 = update_title (push_message c assistantMessage) text
      in if save_try_ok e then Completed (evs @ [Complete assistantMessage (title c2)]) c2
         else Thrown evs c2)"

subsection \<open>\<open>POST /api/chats/[chatId]/stream\<close>\<close>

definition stream_try :: "env \<Rightarrow> string \<Rightarrow> message \<Rightarrow> chat \<Rightarrow> try_result" where
  "stream_try e text userMessage c =
     (let evs0 = [UserMessage userMessage]
      in case upstream e of
           FetchRejects \<Rightarrow> Thrown evs0 c
         | Responds r \<Rightarrow>
             if \<not> ok r then Thrown evs0 c
             else if \<not> has_reader r then Thrown evs0 c
             else
               (case read_loop (reads r) ([], evs0) of
                  (fullResponse, evs1) \<Rightarrow>
                    if ending r = ReadFails then Thrown evs1 c
                    else
                      (let (fullResponse2, evs2) =
                             (if fullResponse = []
                              then (fallback_text, evs1 @ [Chunk (JStr fallback_text)])
                              else (fullResponse, evs1))
                       in finalize e text evs2 c
                            (if fullResponse2 \<noteq> [] then fullResponse2 else sorry_text))))"

definition POST_stream :: "store \<Rightarrow> request \<Rightarrow> env \<Rightarrow> response \<times> store" where
  "POST_stream st rq e =
     (case auth_userId rq of
        None \<Rightarrow> (Text_response 401 ''Unauthorized'', st)
      | Some uid \<Rightarrow>
          (case body_message rq of
             None \<Rightarrow> (Text_response 400 ''Message is required'', st)
           | Some text \<Rightarrow>
               if trim text = [] then (Text_response 400 ''Message is required'', st)
               else
                 (case findOne st (param_chatId rq) uid of
                    None \<Rightarrow> (Text_response 404 ''Chat not found'', st)
                  | Some c \<Rightarrow>
                      (let userMessage = \<lparr>role = User, content = trim text,
                                           timestamp = now_user e, files = None\<rparr>;
                           c1 = push_message c userMessage
                       in case run_stream st e (stream_try e text userMessage c1) of
                            (evs, st') \<Rightarrow> (Event_stream evs, st')))))"

subsection \<open>\<open>POST /api/chats/[chatId]/simulate-stream\<close>\<close>

definition response_json :: "upstream_response \<Rightarrow> json option" where
  \<comment> \<open>\<open>await perplexityResponse.json()\<close>; \<open>None\<close> when it rejects\<close>
  "response_json r =
     (if ending r = ReadFails then None
      else JSON_parse (if has_reader r then concat (reads r) else []))"

definition message_content :: "json \<Rightarrow> jsval option" where
  \<comment> \<open>\<open>aiResponse.choices?.[0]?.message?.content\<close>\<close>
  "message_content aiResponse =
     (if aiResponse = JNull then None
      else Some (opt_chain (get_prop ''content'')
                  (opt_chain (get_prop ''message'')
                    (opt_chain index0 (get_prop ''choices'' aiResponse)))))"

fun word_chunks :: "string list \<Rightarrow> event list" where
  \<comment> \<open>\<open>word + (i < words.length - 1 ? ' ' : '')\<close> for each word in turn\<close>
  "word_chunks [] = []"
| "word_chunks [w] = [Chunk (JStr w)]"
| "word_chunks (w # v # ws) = Chunk (JStr (w @ '' '')) # word_chunks (v # ws)"

definition simulate_try :: "env \<Rightarrow> string \<Rightarrow> message \<Rightarrow> chat \<Rightarrow> try_result" where
  "simulate_try e text userMessage c =
     (let evs0 = [UserMessage userMessage]
      in case upstream e of
           FetchRejects \<Rightarrow> Thrown evs0 c
         | Responds r \<Rightarrow>
             if \<not> ok r then Thrown evs0 c
             else
               (case response_json r of
                  None \<Rightarrow> Thrown evs0 c
                | Some aiResponse \<Rightarrow>
                    (case message_content aiResponse of
                       None \<Rightarrow> Thrown evs0 c
                     | Some x \<Rightarrow>
                         (case (if truthy x then x else Some (JStr sorry_text)) of
                            Some (JStr fullResponse) \<Rightarrow>
                              finalize e text
                                (evs0 @ word_chunks (split_on CHR '' '' fullResponse)) c
                                fullResponse
                          | _ \<Rightarrow> Thrown evs0 c))))"

definition POST_simulate :: "store \<Rightarrow> request \<Rightarrow> env \<Rightarrow> response \<times> store" where
  "POST_simulate st rq e =
     (case auth_userId rq of
        None \<Rightarrow> (Text_response 401 ''Unauthorized'', st)
      | Some uid \<Rightarrow>
          (case body_message rq of
             None \<Rightarrow> (Text_response 400 ''Message is required'', st)
           | Some text \<Rightarrow>
               if trim text = [] then (Text_response 400 ''Message is required'', st)
               else
                 (case findOne st (param_chatId rq) uid of
                    None \<Rightarrow> (Text_response 404 ''Chat not found'', st)
                  | Some c \<Rightarrow>
                      (let userMessage = \<lparr>role = User, content = trim text,
                                           timestamp = now_user e, files = body_files rq\<rparr>;
                           c1 = push_message c userMessage
                       in case run_stream st e (simulate_try e text userMessage c1) of
                            (evs, st') \<Rightarrow> (Event_stream evs, st')))))"

subsection \<open>\<open>POST /api/chats/[chatId]/messages\<close>, up to its \<open>try\<close> block\<close>

definition POST_messages_entry :: "store \<Rightarrow> request \<Rightarrow> env \<Rightarrow> (response \<times> store) + chat" where
  \<comment> \<open>the early returns of the handler, or the document in memory with the user
      message pushed, as the \<open>try\<close> block finds it\<close>
  "POST_messages_entry st rq e =
     (case auth_userId rq of
        None \<Rightarrow> Inl (Json_error 401 ''Unauthorized'', st)
      | Some uid \<Rightarrow>
          (case body_message rq of
             None \<Rightarrow> Inl (Json_error 400 ''Message is required'', st)
           | Some text \<Rightarrow>
               if trim text = [] then Inl (Json_error 400 ''Message is required'', st)
               else
                 (case findOne st (param_chatId rq) uid of
                    None \<Rightarrow> Inl (Json_error 404 ''Chat not found'', st)
                  | Some c \<Rightarrow>
                      Inr (push_message c \<lparr>role = User, content = trim text,
                                            timestamp = now_user e, files = None\<rparr>))))"

section \<open>The client hook \<open>useChat\<close>\<close>

text \<open>
  The hook keeps the working view of one conversation and reduces the events of the
  response in the order they were enqueued. The wire format of an event is not
  modelled: each event reaches the reducer as the handler enqueued it. The \<open>sending\<close>
  flag, set on entry and cleared in \<open>finally\<close>, is left out.
\<close>

record hook =
  hook_chatId :: "string option"
  view :: "chat option"
  error :: "string option"

text \<open>
  What the browser provides: the signed-in user of the session, the clock, and the file
  service of \<open>/api/files/process\<close> (\<open>None\<close> when its response is not a success).
\<close>

record browser =
  session_user :: "string option"
  client_now :: nat
  file_service :: "processed_file list \<Rightarrow> processed_file list option"

datatype files_arg = Files_undefined | Files_array "processed_file list" | Files_true

definition set_messages :: "(message list \<Rightarrow> message list) \<Rightarrow> hook \<Rightarrow> hook" where
  \<comment> \<open>\<open>setChat(prev => prev ? { ...prev, messages: f(prev.messages) } : null)\<close>\<close>
  "set_messages f h = h\<lparr>view := map_option (\<lambda>prev. prev\<lparr>messages := f (messages prev)\<rparr>) (view h)\<rparr>"

fun on_event :: "bool \<Rightarrow> nat \<Rightarrow> hook \<times> string \<Rightarrow> event \<Rightarrow> hook \<times> string" where
  \<comment> \<open>\<open>switch (data.type)\<close>, on the hook and the local \<open>assistantContent\<close>\<close>
  "on_event isRegenerate now (h, assistantContent) (UserMessage m) =
     (if \<not> isRegenerate then (set_messages (\<lambda>ms. butlast ms @ [m]) h, assistantContent)
      else (h, assistantContent))"
| "on_event isRegenerate now (h, assistantContent) (Chunk c) =
     (let assistantContent' = assistantContent @ toString c
      in (set_messages
            (\<lambda>ms. if ms \<noteq> [] \<and> role (last ms) = Assistant
                  then butlast ms @ [(last ms)\<lparr>content := assistantContent'\<rparr>]
                  else ms @ [\<lparr>role = Assistant, content = assistantContent',
                              timestamp = now, files = None\<rparr>]) h,
          assistantContent'))"
| "on_event isRegenerate now (h, assistantContent) (Complete assistantMessage chatTitle) =
     (h\<lparr>view := map_option
            (\<lambda>prev. prev\<lparr>title := (if chatTitle \<noteq> [] then chatTitle else title prev),
                          messages := butlast (messages prev) @ [assistantMessage]\<rparr>) (view h)\<rparr>,
      assistantContent)"
| "on_event isRegenerate now (h, assistantContent) (Error m cls) =
     ((set_messages (\<lambda>ms. butlast ms @ [m]) h)\<lparr>error := Some cls\<rparr>, assistantContent)"

definition sendMessage ::
  "browser \<Rightarrow> store \<Rightarrow> env \<Rightarrow> hook \<Rightarrow> string \<Rightarrow> files_arg \<Rightarrow> bool \<Rightarrow> hook \<times> store" where
  \<comment> \<open>\<open>sendMessage(message, files, isRegenerate)\<close>: the hook and the server's store after
      it; \<open>filesArg\<close> is the parameter \<open>files\<close>\<close>
  "sendMessage br st e h message filesArg isRegenerate =
     (case hook_chatId h of
        None \<Rightarrow> (h, st)
      | Some cid \<Rightarrow>
          if trim message = [] then (h, st)
          else
            (let h1 = (if isRegenerate then set_messages butlast (h\<lparr>error := None\<rparr>)
                       else set_messages
                              (\<lambda>ms. ms @ [\<lparr>role = User, content = trim message,
                                            timestamp = client_now br, files = None\<rparr>])
                              (h\<lparr>error := None\<rparr>));
                 processedFiles =
                   (case filesArg of
                      Files_array fs \<Rightarrow> if fs \<noteq> [] then file_service br fs else None
                    | _ \<Rightarrow> None);
                 rq = \<lparr>auth_userId = session_user br, param_chatId = cid,
                        body_message = Some (trim message), body_files = processedFiles\<rparr>
             in case POST_simulate st rq e of
                  (Event_stream evs, st') \<Rightarrow>
                    (fst (foldl (on_event isRegenerate (client_now br)) (h1, []) evs), st')
                | (rejected, st') \<Rightarrow>
                    ((if isRegenerate then h1 else set_messages butlast h1)
                       \<lparr>error := Some ''Failed to send message''\<rparr>, st')))"

definition onRegenerateResponse :: "browser \<Rightarrow> store \<Rightarrow> env \<Rightarrow> hook \<Rightarrow> hook \<times> store" where
  \<comment> \<open>the handler of the Regenerate button: \<open>sendMessage(lastUserMessage.content, true)\<close>,
      where \<open>true\<close> lands on the parameter \<open>files\<close> and \<open>isRegenerate\<close> keeps its default\<close>
  "onRegenerateResponse br st e h =
     (case view h of
        None \<Rightarrow> (h, st)
      | Some c \<Rightarrow>
          if messages c \<noteq> [] then
            (case find (\<lambda>m. role m = User) (rev (messages c)) of
               None \<Rightarrow> (h, st)
             | Some lastUserMessage \<Rightarrow>
                 sendMessage br st e h (content lastUserMessage) Files_true False)
          else (h, st))"

section \<open>Notions used in the statements\<close>

definition is_sentinel :: "string \<Rightarrow> bool" where
  \<comment> \<open>a data line whose payload is the literal \<open>[DONE]\<close>, as the loop tests it\<close>
  "is_sentinel line \<longleftrightarrow> startsWith ''data: '' line \<and> trim (drop 6 line) = ''[DONE]''"

text \<open>The kinds of event, and the messages the handlers build.\<close>

fun is_userMessage :: "event \<Rightarrow> bool" where
  "is_userMessage (UserMessage m) = True"
| "is_userMessage ev = False"


fun is_complete :: "event \<Rightarrow> bool" where
  "is_complete (Complete m t) = True"
| "is_complete ev = False"

fun is_error :: "event \<Rightarrow> bool" where
  "is_error (Error m cls) = True"
| "is_error ev = False"

definition is_terminal :: "event \<Rightarrow> bool" where
  "is_terminal ev \<longleftrightarrow> is_complete ev \<or> is_error ev"

definition user_message :: "env \<Rightarrow> string \<Rightarrow> processed_file list option \<Rightarrow> message" where
  \<comment> \<open>the user message a handler builds from the request text\<close>
  "user_message e text fs = \<lparr>role = User, content = trim text, timestamp = now_user e, files = fs\<rparr>"

definition error_message :: "env \<Rightarrow> message" where
  \<comment> \<open>the fixed-text message of the \<open>catch\<close> branch\<close>
  "error_message e = \<lparr>role = Assistant, content = error_text, timestamp = now_error e, files = None\<rparr>"

definition upstream_failed :: "env \<Rightarrow> bool" where
  \<comment> \<open>the upstream call fails: \<open>fetch\<close> rejects, the status is not a success, or a read
      of the body fails\<close>
  "upstream_failed e =
     (case upstream e of FetchRejects \<Rightarrow> True | Responds r \<Rightarrow> \<not> ok r \<or> ending r = ReadFails)"

definition assistant_message :: "env \<Rightarrow> string \<Rightarrow> message" where
  \<comment> \<open>the assistant message built from the reply\<close>
  "assistant_message e reply = \<lparr>role = Assistant, content = reply, timestamp = now_reply e, files = None\<rparr>"

definition finalized :: "env \<Rightarrow> string \<Rightarrow> chat \<Rightarrow> string \<Rightarrow> chat" where
  \<comment> \<open>the document in memory once the reply is pushed and the title rule has run\<close>
  "finalized e text c1 reply = update_title (push_message c1 (assistant_message e reply)) text"

definition try_outcome :: "env \<Rightarrow> string \<Rightarrow> message \<Rightarrow> chat \<Rightarrow> try_result \<Rightarrow> bool" where
  \<comment> \<open>a \<open>try\<close> block either throws before the reply is pushed, or reaches its last
      lines with a reply that is not empty\<close>
  "try_outcome e text um c1 r \<longleftrightarrow>
     (\<exists>cs. r = Thrown (UserMessage um # map Chunk cs) c1) \<or>
     (\<not> upstream_failed e \<and>
      (\<exists>cs reply. reply \<noteq> [] \<and> r = finalize e text (UserMessage um # map Chunk cs) c1 reply))"


datatype route = Simulate_stream | Stream

fun exchange :: "route \<Rightarrow> store \<Rightarrow> request \<Rightarrow> env \<Rightarrow> response \<times> store" where
  \<comment> \<open>a call of one of the two streaming handlers\<close>
  "exchange Simulate_stream = POST_simulate"
| "exchange Stream = POST_stream"

definition exchanges :: "store \<Rightarrow> (route \<times> request \<times> env) list \<Rightarrow> store" where
  \<comment> \<open>the store after a sequence of such calls\<close>
  "exchanges st xs = foldl (\<lambda>s (rt, rq, e). snd (exchange rt s rq e)) st xs"

definition title_settled :: "string \<Rightarrow> string \<Rightarrow> store \<Rightarrow> bool" where
  \<comment> \<open>every document with this id has this title and at least one message\<close>
  "title_settled cid ttl st \<longleftrightarrow> (\<forall>d \<in> set st. chat_id d = cid \<longrightarrow> title d = ttl \<and> messages d \<noteq> [])"

text \<open>
  The title as the specification words it: the first six white-space separated words of
  the message, cut to 47 characters and an ellipsis when longer than 50. A text is
  single-spaced when its only white space is the space and no two spaces are adjacent.
\<close>

fun ws_split :: "string \<Rightarrow> string \<Rightarrow> string list" where
  \<comment> \<open>the words of a text, given the word begun so far\<close>
  "ws_split w [] = (if w = [] then [] else [w])"
| "ws_split w (c # cs) =
     (if is_ws c then (if w = [] then ws_split [] cs else w # ws_split [] cs)
      else ws_split (w @ [c]) cs)"

definition ws_words :: "string \<Rightarrow> string list" where
  "ws_words s = ws_split [] s"

fun no_double_space :: "string \<Rightarrow> bool" where
  "no_double_space (a # b # cs) \<longleftrightarrow> \<not> (a = CHR '' '' \<and> b = CHR '' '') \<and> no_double_space (b # cs)"
| "no_double_space cs \<longleftrightarrow> True"

definition single_spaced :: "string \<Rightarrow> bool" where
  "single_spaced s \<longleftrightarrow> list_all (\<lambda>c. is_ws c \<longrightarrow> c = CHR '' '') s \<and> no_double_space s"

definition spec_title :: "string \<Rightarrow> string" where
  "spec_title text =
     (let prefix = join '' '' (take 6 (ws_words text))
      in if length prefix > 50 then take 47 prefix @ ''...'' else prefix)"

definition first_segments :: "string \<Rightarrow> string" where
  \<comment> \<open>the first six segments of the trimmed text, split at every space, joined by spaces\<close>
  "first_segments text = join '' '' (take 6 (split_on CHR '' '' (trim text)))"

section \<open>Concrete conversations, requests and environments\<close>

definition alice_chat :: chat where
  "alice_chat = \<lparr>chat_id = ''c1'', userId = ''alice'', title = ''New Chat'', messages = []\<rparr>"

definition bob_chat :: chat where
  "bob_chat = \<lparr>chat_id = ''c2'', userId = ''bob'', title = ''New Chat'', messages = []\<rparr>"

text \<open>The upstream byte sequence of the decode example, its first data line, and its split into one-byte reads.\<close>

definition dataLine :: string where
  "dataLine = ''data: {\"choices\":[{\"delta\":{\"content\":\"Hi\"}}]}''"

definition wire :: string where
  "wire = ''data: {\"choices\":[{\"delta\":{\"content\":\"Hi\"}}]}\<newline>\<newline>data: [DONE]\<newline>\<newline>''"

definition bytewise :: "string \<Rightarrow> string list" where
  "bytewise s = map (\<lambda>c. [c]) s"

text \<open>A read that goes on after the sentinel, its sentinel line, the data line after it, and an earlier read.\<close>

definition afterDone :: string where
  "afterDone = ''data: [DONE]\<newline>\<newline>data: {\"choices\":[{\"delta\":{\"content\":\"X\"}}]}\<newline>\<newline>''"

definition doneLine :: string where
  "doneLine = ''data: [DONE]''"

definition xLine :: string where
  "xLine = ''data: {\"choices\":[{\"delta\":{\"content\":\"X\"}}]}''"

definition hiRead :: string where
  "hiRead = ''data: {\"choices\":[{\"delta\":{\"content\":\"Hi\"}}]}\<newline>\<newline>''"

text \<open>A first exchange on a new conversation, and the environments it may meet.\<close>

definition hello_request :: request where
  "hello_request = \<lparr>auth_userId = Some ''alice'', param_chatId = ''c1'',
     body_message = Some ''Hello there'', body_files = None\<rparr>"

definition hello_user_message :: message where
  "hello_user_message = \<lparr>role = User, content = ''Hello there'', timestamp = 1, files = None\<rparr>"

definition hi_reply :: message where
  "hi_reply = \<lparr>role = Assistant, content = ''Hi there'', timestamp = 2, files = None\<rparr>"

definition error_reply :: message where
  "error_reply = \<lparr>role = Assistant,
     content = ''Sorry, I encountered an error while processing your message. Please try again.'',
     timestamp = 3, files = None\<rparr>"

definition completion_body :: upstream where
  \<comment> \<open>a single-shot completion whose content is \<open>Hi there\<close>\<close>
  "completion_body = Responds \<lparr>ok = True, has_reader = True,
     reads = [''{\"choices\":[{\"message\":{\"content\":\"Hi there\"}}]}''], ending = Done\<rparr>"



definition env_ok :: env where
  "env_ok = \<lparr>upstream = completion_body, save_try_ok = True, save_catch_ok = True,
     now_user = 1, now_reply = 2, now_error = 3\<rparr>"

definition env_upstream_down :: env where
  "env_upstream_down = \<lparr>upstream = FetchRejects, save_try_ok = True, save_catch_ok = True,
     now_user = 1, now_reply = 2, now_error = 3\<rparr>"



definition env_store_flaky :: env where
  \<comment> \<open>the store rejects the first write and accepts the second\<close>
  "env_store_flaky = \<lparr>upstream = completion_body, save_try_ok = False, save_catch_ok = True,
     now_user = 1, now_reply = 2, now_error = 3\<rparr>"






definition failed_events :: "event list" where
  "failed_events = [UserMessage hello_user_message, Error error_reply ''AI service temporarily unavailable'']"

definition failed_chat :: chat where
  "failed_chat = \<lparr>chat_id = ''c1'', userId = ''alice'', title = ''New Chat'',
     messages = [hello_user_message, error_reply]\<rparr>"

definition later_chat :: chat where
  "later_chat = \<lparr>chat_id = ''c1'', userId = ''alice'', title = ''New Chat'',
     messages = [hello_user_message, error_reply, hello_user_message, hi_reply]\<rparr>"

definition flaky_events :: "event list" where
  "flaky_events = [UserMessage hello_user_message, Chunk (JStr ''Hi ''), Chunk (JStr ''there''),
     Error error_reply ''AI service temporarily unavailable'']"

definition flaky_chat :: chat where
  "flaky_chat = \<lparr>chat_id = ''c1'', userId = ''alice'', title = ''Hello there'',
     messages = [hello_user_message, hi_reply, error_reply]\<rparr>"




text \<open>A request with an attachment and no text, and a request for a conversation that does not exist.\<close>

definition report_file :: processed_file where
  "report_file = \<lparr>name = ''report.pdf'', mimeType = ''application/pdf'', textContent = None\<rparr>"

definition files_only_request :: request where
  "files_only_request = \<lparr>auth_userId = Some ''alice'', param_chatId = ''c1'',
     body_message = Some [], body_files = Some [report_file]\<rparr>"

definition unknown_chat_request :: request where
  "unknown_chat_request = \<lparr>auth_userId = Some ''alice'', param_chatId = ''c9'',
     body_message = Some ''Hello there'', body_files = None\<rparr>"

text \<open>The title example of the specification, and a text with two spaces in a row.\<close>

definition recursion_text :: string where
  "recursion_text = ''Can you help me understand recursion please''"

definition recursion_request :: request where
  "recursion_request = \<lparr>auth_userId = Some ''alice'', param_chatId = ''c1'',
     body_message = Some recursion_text, body_files = None\<rparr>"

definition recursion_user_message :: message where
  "recursion_user_message = \<lparr>role = User, content = recursion_text, timestamp = 1, files = None\<rparr>"

definition recursion_events :: "event list" where
  "recursion_events = [UserMessage recursion_user_message, Chunk (JStr ''Hi ''), Chunk (JStr ''there''),
     Complete hi_reply ''Can you help me understand recursion'']"

definition recursion_chat :: chat where
  "recursion_chat = \<lparr>chat_id = ''c1'', userId = ''alice'',
     title = ''Can you help me understand recursion'',
     messages = [recursion_user_message, hi_reply]\<rparr>"

definition double_spaced_text :: string where
  "double_spaced_text = ''a  b c d e f g''"

text \<open>The regeneration example: a conversation ending in a question and its answer.\<close>

definition question :: message where
  "question = \<lparr>role = User, content = ''2+2?'', timestamp = 1, files = None\<rparr>"

definition answer_4 :: message where
  "answer_4 = \<lparr>role = Assistant, content = ''4'', timestamp = 2, files = None\<rparr>"

definition question_again :: message where
  "question_again = \<lparr>role = User, content = ''2+2?'', timestamp = 5, files = None\<rparr>"

definition answer_four :: message where
  "answer_four = \<lparr>role = Assistant, content = ''Four'', timestamp = 6, files = None\<rparr>"

definition math_chat :: chat where
  "math_chat = \<lparr>chat_id = ''c1'', userId = ''alice'', title = ''2+2?'',
     messages = [question, answer_4]\<rparr>"

definition math_hook :: hook where
  "math_hook = \<lparr>hook_chatId = Some ''c1'', view = Some math_chat, error = None\<rparr>"

definition alice_browser :: browser where
  "alice_browser = \<lparr>session_user = Some ''alice'', client_now = 5, file_service = (\<lambda>fs. Some fs)\<rparr>"

definition env_four :: env where
  "env_four = \<lparr>upstream = Responds \<lparr>ok = True, has_reader = True,
       reads = [''{\"choices\":[{\"message\":{\"content\":\"Four\"}}]}''], ending = Done\<rparr>,
     save_try_ok = True, save_catch_ok = True, now_user = 5, now_reply = 6, now_error = 7\<rparr>"

definition regenerated_view :: chat where
  \<comment> \<open>the working view after \<open>sendMessage\<close> in regenerate mode\<close>
  "regenerated_view = \<lparr>chat_id = ''c1'', userId = ''alice'', title = ''2+2?'',
     messages = [question, answer_four]\<rparr>"

definition regenerated_chat :: chat where
  \<comment> \<open>the conversation the server has persisted after it\<close>
  "regenerated_chat = \<lparr>chat_id = ''c1'', userId = ''alice'', title = ''2+2?'',
     messages = [question, answer_4, question_again, answer_four]\<rparr>"

definition long_text :: string where
  "long_text = ''Supercalifragilistic expialidocious antidisestablishment pneumonoultramicroscopic words here and more''"

section \<open>Store lookups\<close>

lemma findOne_None_iff: "findOne st cid uid = None \<longleftrightarrow> (\<forall>c \<in> set st. chat_id c = cid \<longrightarrow> userId c \<noteq> uid)"
  by (auto simp: findOne_def find_None_iff)

lemma findOne_SomeD: "findOne st cid uid = Some c \<Longrightarrow> c \<in> set st \<and> chat_id c = cid \<and> userId c = uid"
  by (auto simp: findOne_def find_Some_iff)

lemma findOneAndDelete_eq:
  "findOneAndDelete st cid uid =
     (case findOne st cid uid of None \<Rightarrow> (None, st) | Some d \<Rightarrow> (Some d, remove1 d st))"
proof (induction st)
  case Nil
  then show ?case by (simp add: findOne_def)
next
  case (Cons c st)
  show ?case
  proof (cases "chat_id c = cid \<and> userId c = uid")
    case True
    then show ?thesis by (simp add: findOne_def)
  next
    case False
    then have "findOne (c # st) cid uid = findOne st cid uid"
      by (auto simp: findOne_def)
    moreover have "d \<noteq> c" if "findOne st cid uid = Some d" for d
      using that False by (auto simp: findOne_def find_Some_iff)
    ultimately show ?thesis
      using False Cons.IH by (auto split: option.splits)
  qed
qed

section \<open>The fuel of the parser\<close>

text \<open>
  The fuel of \<^const>\<open>parse_value\<close> bounds the depth of its calls and nothing else: a
  value read with some fuel is read, with the same result, with twice the number of
  characters it spans, and so with the fuel \<^const>\<open>JSON_parse\<close> starts from. \<open>None\<close> from
  \<^const>\<open>JSON_parse\<close> is therefore always the \<open>SyntaxError\<close>.
\<close>

lemma skip_ws_length: "length (skip_ws r) \<le> length r"
  by (simp add: skip_ws_def length_dropWhile_le)

lemma skip_ws_Cons_length: "skip_ws r = d # r2 \<Longrightarrow> length r2 < length r"
  using skip_ws_length [of r] by simp

lemma parse_string_length: "parse_string s = Some (str, t) \<Longrightarrow> length t < length s"
proof (induction s arbitrary: str t rule: parse_string.induct)
  case 1
  then show ?case by simp
next
  case (2 c cs)
  show ?case
    using "2.prems" "2.IH"
    by (fastforce split: if_splits list.splits option.splits)
qed

lemma parse_digits_length: "parse_digits s = Some (ds, t) \<Longrightarrow> length t < length s"
proof -
  assume a: "parse_digits s = Some (ds, t)"
  then have "takeWhile is_digit s \<noteq> []" "t = dropWhile is_digit s"
    by (auto simp: parse_digits_def Let_def split: if_splits)
  moreover have "length (takeWhile is_digit s) + length (dropWhile is_digit s) = length s"
    by (metis length_append takeWhile_dropWhile_id)
  ultimately show ?thesis by (cases "takeWhile is_digit s") auto
qed

lemma parse_number_length: "parse_number s = Some (lit, t) \<Longrightarrow> length t < length s"
  unfolding parse_number_def Let_def
  by (auto split: if_splits option.splits prod.splits dest!: parse_digits_length)

lemma parse_fuel:
  "(\<forall>s v r. parse_value n s = Some (v, r) \<longrightarrow>
      length r < length s \<and> (\<forall>m. 2 * (length s - length r) \<le> m \<longrightarrow> parse_value m s = Some (v, r))) \<and>
   (\<forall>s vs r. parse_elements n s = Some (vs, r) \<longrightarrow>
      length r < length s \<and> (\<forall>m. 2 * (length s - length r) \<le> m \<longrightarrow> parse_elements m s = Some (vs, r))) \<and>
   (\<forall>s kvs r. parse_members n s = Some (kvs, r) \<longrightarrow>
      length r < length s \<and> (\<forall>m. 2 * (length s - length r) \<le> m \<longrightarrow> parse_members m s = Some (kvs, r)))"
proof (induction n)
  case 0
  show ?case by simp
next
  case (Suc n)
  have IHv: "length r < length s" "2 * (length s - length r) \<le> m \<Longrightarrow> parse_value m s = Some (v, r)"
    if "parse_value n s = Some (v, r)" for s v r m
    using Suc that by blast+
  have IHe: "length r < length s" "2 * (length s - length r) \<le> m \<Longrightarrow> parse_elements m s = Some (vs, r)"
    if "parse_elements n s = Some (vs, r)" for s vs r m
    using Suc that by blast+
  have IHm: "length r < length s" "2 * (length s - length r) \<le> m \<Longrightarrow> parse_members m s = Some (kvs, r)"
    if "parse_members n s = Some (kvs, r)" for s kvs r m
    using Suc that by blast+
  have V: "length r < length s \<and> (\<forall>m. 2 * (length s - length r) \<le> m \<longrightarrow> parse_value m s = Some (v, r))"
    if h: "parse_value (Suc n) s = Some (v, r)" for s v r
  proof -
    from h obtain c r0 where s: "s = c # r0" by (cases s) simp_all
    from h s consider (obj) d r2 kvs where "c = CHR ''{''" "skip_ws r0 = d # r2" "d \<noteq> CHR ''}''"
          "parse_members n (d # r2) = Some (kvs, r)" "v = JObj kvs"
      | (arr) d r2 vs where "c = CHR ''[''" "skip_ws r0 = d # r2" "d \<noteq> CHR '']''"
          "parse_elements n (d # r2) = Some (vs, r)" "v = JArr vs"
      | (flat) "length r < length s" "\<And>k. parse_value (Suc k) s = Some (v, r)"
      by (auto split: if_splits list.splits
          dest: skip_ws_Cons_length parse_string_length parse_number_length)
    then show ?thesis
    proof cases
      case obj
      have l: "length r < length (d # r2)" "length (d # r2) \<le> length r0"
        using IHm(1) [OF obj(4)] skip_ws_length [of r0] obj(2) by simp_all
      have "parse_value m s = Some (v, r)" if m: "2 * (length s - length r) \<le> m" for m
      proof -
        from m l s obtain k where k: "m = Suc k" "2 * (length (d # r2) - length r) \<le> k"
          by (cases m) auto
        from IHm(2) [OF obj(4) k(2)] show ?thesis
          by (simp add: k(1) s obj)
      qed
      with l s show ?thesis by simp
    next
      case arr
      have l: "length r < length (d # r2)" "length (d # r2) \<le> length r0"
        using IHe(1) [OF arr(4)] skip_ws_length [of r0] arr(2) by simp_all
      have "parse_value m s = Some (v, r)" if m: "2 * (length s - length r) \<le> m" for m
      proof -
        from m l s obtain k where k: "m = Suc k" "2 * (length (d # r2) - length r) \<le> k"
          by (cases m) auto
        from IHe(2) [OF arr(4) k(2)] show ?thesis
          by (simp add: k(1) s arr)
      qed
      with l s show ?thesis by simp
    next
      case flat
      have "parse_value m s = Some (v, r)" if m: "2 * (length s - length r) \<le> m" for m
      proof -
        from m flat(1) obtain k where "m = Suc k" by (cases m) auto
        with flat(2) show ?thesis by simp
      qed
      with flat(1) show ?thesis by simp
    qed
  qed
  have E: "length r < length s \<and> (\<forall>m. 2 * (length s - length r) \<le> m \<longrightarrow> parse_elements m s = Some (vs, r))"
    if h: "parse_elements (Suc n) s = Some (vs, r)" for s vs r
  proof -
    from h obtain v r1 where v: "parse_value n s = Some (v, r1)"
      by (auto split: option.splits)
    from h v obtain d r2 where d: "skip_ws r1 = d # r2"
      by (auto split: list.splits)
    have l1: "length r1 < length s" "length r2 < length r1"
      using IHv(1) [OF v] skip_ws_Cons_length [OF d] by simp_all
    from h v d consider (last) "d = CHR '']''" "vs = [v]" "r = r2"
      | (more) ws where "d = CHR '',''" "d \<noteq> CHR '']''" "parse_elements n (skip_ws r2) = Some (ws, r)" "vs = v # ws"
      by (auto split: if_splits)
    then show ?thesis
    proof cases
      case last
      have "parse_elements m s = Some (vs, r)" if m: "2 * (length s - length r) \<le> m" for m
      proof -
        from m l1 last obtain k where k: "m = Suc k" "2 * (length s - length r1) \<le> k"
          by (cases m) auto
        from IHv(2) [OF v k(2)] show ?thesis
          by (simp add: k(1) d last)
      qed
      with l1 last show ?thesis by simp
    next
      case more
      have l2: "length r < length (skip_ws r2)" "length (skip_ws r2) \<le> length r2"
        using IHe(1) [OF more(3)] skip_ws_length [of r2] by simp_all
      have "parse_elements m s = Some (vs, r)" if m: "2 * (length s - length r) \<le> m" for m
      proof -
        from m l1 l2 obtain k where k: "m = Suc k" "2 * (length s - length r1) \<le> k"
          "2 * (length (skip_ws r2) - length r) \<le> k"
          by (cases m) auto
        from IHv(2) [OF v k(2)] IHe(2) [OF more(3) k(3)] show ?thesis
          by (simp add: k(1) d more)
      qed
      with l1 l2 show ?thesis by simp
    qed
  qed
  have M: "length r < length s \<and> (\<forall>m. 2 * (length s - length r) \<le> m \<longrightarrow> parse_members m s = Some (kvs, r))"
    if h: "parse_members (Suc n) s = Some (kvs, r)" for s kvs r
  proof -
    from h obtain r0 where s: "s = CHR 0x22 # r0"
      by (cases s) (auto split: if_splits)
    from h s obtain k r1 where k: "parse_string r0 = Some (k, r1)"
      by (auto split: option.splits)
    from h s k obtain r2 where c: "skip_ws r1 = CHR '':'' # r2"
      by (auto split: list.splits if_splits)
    from h s k c obtain v r3 where v: "parse_value n (skip_ws r2) = Some (v, r3)"
      by (auto split: option.splits)
    from h s k c v obtain d r4 where d: "skip_ws r3 = d # r4"
      by (auto split: list.splits)
    have l1: "length r1 < length r0" "length r2 < length r1" "length (skip_ws r2) \<le> length r2"
      "length r3 < length (skip_ws r2)" "length r4 < length r3"
      using parse_string_length [OF k] skip_ws_Cons_length [OF c] skip_ws_length [of r2]
        IHv(1) [OF v] skip_ws_Cons_length [OF d] by simp_all
    from h s k c v d consider (last) "d = CHR ''}''" "kvs = [(k, v)]" "r = r4"
      | (more) ws where "d = CHR '',''" "d \<noteq> CHR ''}''" "parse_members n (skip_ws r4) = Some (ws, r)"
          "kvs = (k, v) # ws"
      by (auto split: if_splits)
    then show ?thesis
    proof cases
      case last
      have "parse_members m s = Some (kvs, r)" if m: "2 * (length s - length r) \<le> m" for m
      proof -
        from m l1 last s obtain j where j: "m = Suc j" "2 * (length (skip_ws r2) - length r3) \<le> j"
          by (cases m) auto
        from IHv(2) [OF v j(2)] show ?thesis
          by (simp add: j(1) s k c d last)
      qed
      with l1 last s show ?thesis by simp
    next
      case more
      have l2: "length r < length (skip_ws r4)" "length (skip_ws r4) \<le> length r4"
        using IHm(1) [OF more(3)] skip_ws_length [of r4] by simp_all
      have "parse_members m s = Some (kvs, r)" if m: "2 * (length s - length r) \<le> m" for m
      proof -
        from m l1 l2 s obtain j where j: "m = Suc j" "2 * (length (skip_ws r2) - length r3) \<le> j"
          "2 * (length (skip_ws r4) - length r) \<le> j"
          by (cases m) auto
        from IHv(2) [OF v j(2)] IHm(2) [OF more(3) j(3)] show ?thesis
          by (simp add: j(1) s k c d more)
      qed
      with l1 l2 s show ?thesis by simp
    qed
  qed
  from V E M show ?case by blast
qed

lemma JSON_parse_fuel:
  assumes "parse_value n (skip_ws s) = Some (v, r)"
  shows "parse_value (2 * length s + 2) (skip_ws s) = Some (v, r)"
proof -
  from parse_fuel [of n] assms
  have "\<forall>m. 2 * (length (skip_ws s) - length r) \<le> m \<longrightarrow> parse_value m (skip_ws s) = Some (v, r)"
    by blast
  moreover have "2 * (length (skip_ws s) - length r) \<le> 2 * length s + 2"
    using skip_ws_length [of s] by simp
  ultimately show ?thesis by blast
qed

lemma JSON_parse_complete:
  assumes "parse_value n (skip_ws s) = Some (v, r)" "skip_ws r = []"
  shows "JSON_parse s = Some v"
  using JSON_parse_fuel [OF assms(1)] assms(2) by (simp add: JSON_parse_def)

section \<open>The loops in closed form\<close>

lemma lines_loop_eq:
  "lines_loop ls (full, evs) =
     (full @ concat (map toString (List.map_filter lineIncrement ls)),
      evs @ map Chunk (List.map_filter lineIncrement ls))"
  by (induction ls arbitrary: full evs) (simp_all add: List.map_filter_simps split: option.split)

lemma read_loop_eq:
  "read_loop rs (full, evs) =
     (full @ concat (map toString (concat (map readIncrements rs))),
      evs @ map Chunk (concat (map readIncrements rs)))"
  by (induction rs arbitrary: full evs) (simp_all add: lines_loop_eq readIncrements_def)

lemma chunk_contents_Chunk [simp]: "chunk_contents (map Chunk cs) = cs"
  by (induction cs) (simp_all add: chunk_contents_def)

lemma chunk_contents_append [simp]: "chunk_contents (xs @ ys) = chunk_contents xs @ chunk_contents ys"
  by (simp add: chunk_contents_def)

lemma decode_eq: "decode rs = concat (map readIncrements rs)"
  by (simp add: decode_def read_loop_eq)

lemma split_on_nonempty: "split_on c s \<noteq> []"
  by (induction s) (auto split: list.split)

section \<open>The decoder\<close>

lemma wire_length: "length wire = 62"
  by (simp add: wire_def)

lemma substring_increments:
  "list_all (\<lambda>i. list_all (\<lambda>j.
       readIncrements (take (j - i) (drop i wire)) = (if i = 0 \<and> 46 \<le> j then [JStr ''Hi''] else []))
     [i..<63]) [0..<63]"
  by code_simp

lemma dataLine_once: "list_all (\<lambda>i. \<not> startsWith dataLine (drop i wire)) [1..<63]"
  by code_simp

lemma dataLine_first: "take 46 wire = dataLine" "length dataLine = 46"
  by (simp_all add: wire_def dataLine_def)

lemma startsWith_take: "startsWith p (take n s) \<Longrightarrow> startsWith p s"
  unfolding startsWith_def
  by (metis append_take_drop_id length_take min.cobounded1 take_all take_append take_take)

lemma read_at_offset:
  assumes "i \<le> j" "j \<le> 62"
  shows "readIncrements (take (j - i) (drop i wire)) = (if i = 0 \<and> 46 \<le> j then [JStr ''Hi''] else [])"
    and "startsWith dataLine (take (j - i) (drop i wire)) \<longleftrightarrow> i = 0 \<and> 46 \<le> j"
proof -
  from assms have "i \<in> set [0..<63]" "j \<in> set [i..<63]" by simp_all
  with substring_increments show
    "readIncrements (take (j - i) (drop i wire)) = (if i = 0 \<and> 46 \<le> j then [JStr ''Hi''] else [])"
    unfolding list_all_iff by blast
  show "startsWith dataLine (take (j - i) (drop i wire)) \<longleftrightarrow> i = 0 \<and> 46 \<le> j"
  proof (cases "i = 0")
    case True
    have "take 46 (take j wire) = dataLine \<longleftrightarrow> 46 \<le> j"
    proof
      assume "take 46 (take j wire) = dataLine"
      then have "length (take 46 (take j wire)) = 46" by (simp add: dataLine_first)
      then show "46 \<le> j" by simp
    next
      assume "46 \<le> j"
      then have "take 46 (take j wire) = take 46 wire" by (simp add: min_def)
      then show "take 46 (take j wire) = dataLine" by (simp add: dataLine_first)
    qed
    with True show ?thesis by (simp add: startsWith_def dataLine_first)
  next
    case False
    with assms have "i \<in> set [1..<63]" by simp
    with dataLine_once have "\<not> startsWith dataLine (drop i wire)"
      unfolding list_all_iff by blast
    with False startsWith_take show ?thesis by blast
  qed
qed

lemma split_read:
  assumes "r # rs = rs0" "concat rs0 = drop i wire" "i \<le> 62"
  shows "r = take ((i + length r) - i) (drop i wire)" "concat rs = drop (i + length r) wire" "i + length r \<le> 62"
proof -
  from assms have eq: "r @ concat rs = drop i wire" by auto
  then have "length r + length (concat rs) = 62 - i"
    by (metis length_append length_drop wire_length)
  with assms(3) show "i + length r \<le> 62" by simp
  from eq show "r = take ((i + length r) - i) (drop i wire)"
    by (metis add_diff_cancel_left' append_eq_conv_conj)
  from eq show "concat rs = drop (i + length r) wire"
    by (metis add.commute append_eq_conv_conj drop_drop)
qed

lemma later_reads_silent:
  assumes "concat rs = drop i wire" "0 < i" "i \<le> 62"
  shows "\<forall>r \<in> set rs. readIncrements r = [] \<and> \<not> startsWith dataLine r"
  using assms
proof (induction rs arbitrary: i)
  case Nil
  then show ?case by simp
next
  case (Cons r rs)
  note s = split_read [OF refl Cons.prems(1) Cons.prems(3)]
  have "i \<le> i + length r" by simp
  from read_at_offset [OF this s(3)] Cons.prems(2) s(1)
  have "readIncrements r = [] \<and> \<not> startsWith dataLine r" by simp
  moreover have "\<forall>r \<in> set rs. readIncrements r = [] \<and> \<not> startsWith dataLine r"
    using Cons.IH [OF s(2)] Cons.prems(2) s(3) by simp
  ultimately show ?case by simp
qed

lemma decode_partition:
  assumes "concat rs = wire"
  shows "concat (map readIncrements rs) = (if \<exists>r \<in> set rs. startsWith dataLine r then [JStr ''Hi''] else [])"
  using assms
proof (induction rs)
  case Nil
  then show ?case by (simp add: wire_def)
next
  case (Cons r rs)
  have c0: "concat (r # rs) = drop 0 wire" using Cons.prems by simp
  note s = split_read [OF refl c0, simplified]
  show ?case
  proof (cases "r = []")
    case True
    have "readIncrements [] = []" "\<not> startsWith dataLine []"
      using read_at_offset [of 0 0] by simp_all
    with True Cons show ?thesis by simp
  next
    case False
    then have pos: "0 < length r" by simp
    have rest: "\<forall>r' \<in> set rs. readIncrements r' = [] \<and> \<not> startsWith dataLine r'"
      using later_reads_silent [OF s(2) pos s(3)] .
    then have "concat (map readIncrements rs) = []" by simp
    moreover have "readIncrements r = (if 46 \<le> length r then [JStr ''Hi''] else [])"
      "startsWith dataLine r \<longleftrightarrow> 46 \<le> length r"
      using read_at_offset [of 0 "length r"] s(1) s(3) by simp_all
    ultimately show ?thesis using rest by auto
  qed
qed

text \<open>
  Claim C2, as amended. The loop splits each read on its own and keeps nothing between
  reads. For every way of cutting the byte sequence of the example into reads, the
  increments are \<open>["Hi"]\<close> when one read holds the first data line whole (as when all
  bytes come in one read) and there is no increment otherwise.
\<close>

theorem decode_rechunking:
  "concat rs = wire \<Longrightarrow>
     decode rs = (if \<exists>r \<in> set rs. startsWith dataLine r then [JStr ''Hi''] else [])"
  by (simp only: decode_eq decode_partition)

theorem decode_rechunking_witness:
  "concat [wire] = wire \<and> decode [wire] = [JStr ''Hi'']"
proof -
  have c: "concat [wire] = wire" by simp
  have "startsWith dataLine wire" by (simp add: startsWith_def dataLine_def wire_def)
  then have "\<exists>r \<in> set [wire]. startsWith dataLine r" by simp
  with decode_rechunking [OF c] c show ?thesis by simp
qed

text \<open>
  The claim as stated fails: read byte by byte, no read starts with \<open>data: \<close> and the
  example yields no increment at all.
\<close>

theorem decode_bytewise_counterexample:
  "concat (bytewise wire) = wire \<and> decode (bytewise wire) = [] \<and> decode (bytewise wire) \<noteq> [JStr ''Hi'']"
proof -
  have "decode (bytewise wire) = []" by code_simp
  moreover have "concat (bytewise wire) = wire" by (simp add: bytewise_def wire_def)
  ultimately show ?thesis by simp
qed

lemma map_filter_append: "List.map_filter f (xs @ ys) = List.map_filter f xs @ List.map_filter f ys"
  by (simp add: List.map_filter_def)

lemma sentinel_no_increment: "is_sentinel line \<Longrightarrow> lineIncrement line = None"
  by (simp add: is_sentinel_def lineIncrement_def)

text \<open>
  Claim C8, as amended. A data line whose payload is \<open>[DONE]\<close> yields no increment;
  the loop skips it and goes on, so the lines before it and after it in the same read,
  and the reads that follow, contribute their increments as if the line were absent.
\<close>

theorem sentinel_skipped:
  assumes "is_sentinel s" "split_on CHR ''\<newline>'' r = before @ s # after"
  shows "lineIncrement s = None \<and>
         decode (rs1 @ [r] @ rs2)
           = decode rs1 @ List.map_filter lineIncrement before
               @ List.map_filter lineIncrement after @ decode rs2"
proof -
  note none = sentinel_no_increment [OF assms(1)]
  have "readIncrements r
      = List.map_filter lineIncrement before @ List.map_filter lineIncrement after"
    using none by (simp add: readIncrements_def assms(2) map_filter_append List.map_filter_simps)
  with none show ?thesis by (simp add: decode_eq)
qed

theorem sentinel_skipped_witness:
  "is_sentinel doneLine \<and>
   split_on CHR ''\<newline>'' afterDone = [] @ doneLine # [[], xLine, [], []] \<and>
   lineIncrement doneLine = None \<and>
   decode ([hiRead] @ [afterDone] @ []) = [JStr ''Hi'', JStr ''X'']"
proof -
  have s: "is_sentinel doneLine" by code_simp
  have l: "split_on CHR ''\<newline>'' afterDone = [] @ doneLine # [[], xLine, [], []]" by code_simp
  have a: "decode [hiRead] = [JStr ''Hi'']" by code_simp
  have b: "List.map_filter lineIncrement [[], xLine, [], []] = [JStr ''X'']" by code_simp
  have n: "List.map_filter lineIncrement [] = []" "decode [] = []"
    by (simp_all add: List.map_filter_simps decode_eq)
  note t = sentinel_skipped [OF s l, of "[hiRead]" "[]"]
  from t have t1: "lineIncrement doneLine = None" by (rule conjunct1)
  from t have "decode ([hiRead] @ [afterDone] @ [])
      = decode [hiRead] @ List.map_filter lineIncrement []
          @ List.map_filter lineIncrement [[], xLine, [], []] @ decode []"
    by (rule conjunct2)
  then have t2: "decode ([hiRead] @ [afterDone] @ []) = [JStr ''Hi'', JStr ''X'']"
    by (simp only: a b n append_Nil append_Nil2 append_Cons)
  from s l t1 t2 show ?thesis by (intro conjI)
qed

text \<open>
  The claim as stated fails: a data frame after the sentinel still yields its increment.
\<close>

theorem frames_after_sentinel_counterexample:
  "decode [afterDone] = [JStr ''X''] \<and> decode [afterDone] \<noteq> []"
proof -
  have "decode [afterDone] = [JStr ''X'']" by code_simp
  then show ?thesis by simp
qed

section \<open>The handlers on a valid invocation\<close>

lemma POST_stream_valid:
  assumes "auth_userId rq = Some uid" "body_message rq = Some text" "trim text \<noteq> []"
    "findOne st (param_chatId rq) uid = Some c"
  shows "POST_stream st rq e =
    (Event_stream (fst (run_stream st e (stream_try e text (user_message e text None)
        (push_message c (user_message e text None))))),
     snd (run_stream st e (stream_try e text (user_message e text None)
        (push_message c (user_message e text None)))))"
  using assms by (simp add: POST_stream_def user_message_def Let_def split: prod.split)

lemma POST_simulate_valid:
  assumes "auth_userId rq = Some uid" "body_message rq = Some text" "trim text \<noteq> []"
    "findOne st (param_chatId rq) uid = Some c"
  shows "POST_simulate st rq e =
    (Event_stream (fst (run_stream st e (simulate_try e text (user_message e text (body_files rq))
        (push_message c (user_message e text (body_files rq)))))),
     snd (run_stream st e (simulate_try e text (user_message e text (body_files rq))
        (push_message c (user_message e text (body_files rq))))))"
  using assms by (simp add: POST_simulate_def user_message_def Let_def split: prod.split)

lemma word_chunks_are_chunks: "\<exists>cs. word_chunks ws = map Chunk cs"
proof (induction ws rule: word_chunks.induct)
  case 1
  show ?case by simp
next
  case (2 w)
  have "word_chunks [w] = map Chunk [JStr w]" by simp
  then show ?case by blast
next
  case (3 w v ws)
  then obtain cs where "word_chunks (v # ws) = map Chunk cs" by blast
  then have "word_chunks (w # v # ws) = map Chunk (JStr (w @ '' '') # cs)" by simp
  then show ?case by blast
qed

lemma finalize_eq:
  "finalize e text evs c1 reply =
     (if save_try_ok e
      then Completed (evs @ [Complete (assistant_message e reply) (title (finalized e text c1 reply))])
             (finalized e text c1 reply)
      else Thrown evs (finalized e text c1 reply))"
  by (simp add: finalize_def Let_def assistant_message_def finalized_def)

lemma fallback_text_nonempty: "fallback_text \<noteq> []" and sorry_text_nonempty: "sorry_text \<noteq> []"
  by (simp_all add: fallback_text_def sorry_text_def)

lemma stream_try_Responds:
  assumes "upstream e = Responds r" "ok r" "has_reader r"
  shows "stream_try e text um c1 =
     (let incs = decode (reads r); full = concat (map toString incs)
      in if ending r = ReadFails then Thrown (UserMessage um # map Chunk incs) c1
         else if full = []
         then finalize e text (UserMessage um # map Chunk (incs @ [JStr fallback_text])) c1 fallback_text
         else finalize e text (UserMessage um # map Chunk incs) c1 full)"
  using assms fallback_text_nonempty
  by (simp add: stream_try_def read_loop_eq decode_eq Let_def)

lemma stream_try_outcome: "try_outcome e text um c1 (stream_try e text um c1)"
proof (cases "upstream e")
  case FetchRejects
  then have "stream_try e text um c1 = Thrown (UserMessage um # map Chunk []) c1"
    by (simp add: stream_try_def)
  then show ?thesis unfolding try_outcome_def by blast
next
  case (Responds r)
  show ?thesis
  proof (cases "ok r \<and> has_reader r")
    case False
    with Responds have "stream_try e text um c1 = Thrown (UserMessage um # map Chunk []) c1"
      by (auto simp: stream_try_def Let_def)
    then show ?thesis unfolding try_outcome_def by blast
  next
    case True
    define incs where "incs = decode (reads r)"
    define full where "full = concat (map toString incs)"
    have eq: "stream_try e text um c1 =
       (if ending r = ReadFails then Thrown (UserMessage um # map Chunk incs) c1
        else if full = []
        then finalize e text (UserMessage um # map Chunk (incs @ [JStr fallback_text])) c1 fallback_text
        else finalize e text (UserMessage um # map Chunk incs) c1 full)"
      using stream_try_Responds [OF Responds, of "text" um c1] True
      unfolding incs_def full_def Let_def by blast
    show ?thesis
    proof (cases "ending r = ReadFails")
      case True
      with eq have "stream_try e text um c1 = Thrown (UserMessage um # map Chunk incs) c1"
        by simp
      then show ?thesis unfolding try_outcome_def by blast
    next
      case False
      with Responds True have nf: "\<not> upstream_failed e" by (simp add: upstream_failed_def)
      show ?thesis
      proof (cases "full = []")
        case True
        with eq False
        have "stream_try e text um c1 = finalize e text
            (UserMessage um # map Chunk (incs @ [JStr fallback_text])) c1 fallback_text"
          by simp
        with nf fallback_text_nonempty show ?thesis unfolding try_outcome_def by blast
      next
        case nonempty: False
        with eq False
        have "stream_try e text um c1 = finalize e text (UserMessage um # map Chunk incs) c1 full"
          by simp
        with nf nonempty show ?thesis unfolding try_outcome_def by blast
      qed
    qed
  qed
qed

lemma truthy_string: "truthy (Some (JStr s)) \<longleftrightarrow> s \<noteq> []"
  by (simp add: truthy_def)

lemma simulate_try_outcome: "try_outcome e text um c1 (simulate_try e text um c1)"
proof -
  let ?thrown = "Thrown (UserMessage um # map Chunk []) c1"
  have thrown: "try_outcome e text um c1 ?thrown"
    unfolding try_outcome_def by blast
  show ?thesis
  proof (cases "upstream e")
    case FetchRejects
    then have "simulate_try e text um c1 = ?thrown" by (simp add: simulate_try_def)
    with thrown show ?thesis by simp
  next
    case (Responds r)
    show ?thesis
    proof (cases "ok r \<and> ending r \<noteq> ReadFails")
      case False
      with Responds have "simulate_try e text um c1 = ?thrown"
        by (auto simp: simulate_try_def response_json_def Let_def)
      with thrown show ?thesis by simp
    next
      case True
      with Responds have nf: "\<not> upstream_failed e" by (simp add: upstream_failed_def)
      have fin: "try_outcome e text um c1
          (finalize e text ([UserMessage um] @ word_chunks (split_on CHR '' '' reply)) c1 reply)"
        if "reply \<noteq> []" for reply
      proof -
        obtain cs where "word_chunks (split_on CHR '' '' reply) = map Chunk cs"
          using word_chunks_are_chunks by blast
        then have "[UserMessage um] @ word_chunks (split_on CHR '' '' reply) = UserMessage um # map Chunk cs"
          by simp
        with nf that show ?thesis unfolding try_outcome_def by metis
      qed
      have reply: "try_outcome e text um c1
          (case (if truthy x then x else Some (JStr sorry_text)) of
             Some (JStr fullResponse) \<Rightarrow>
               finalize e text ([UserMessage um] @ word_chunks (split_on CHR '' '' fullResponse)) c1 fullResponse
           | _ \<Rightarrow> Thrown [UserMessage um] c1)" for x
      proof (cases "truthy x")
        case False
        with fin [OF sorry_text_nonempty] show ?thesis by simp
      next
        case True
        then show ?thesis using thrown fin
          by (auto simp: truthy_string split: option.split json.split)
      qed
      show ?thesis
        using Responds thrown reply
        by (simp add: simulate_try_def Let_def split: option.split)
    qed
  qed
qed

lemma filter_map_Chunk [simp]:
  "filter is_userMessage (map Chunk cs) = []"
  "filter is_terminal (map Chunk cs) = []"
  by (induction cs) (simp_all add: is_terminal_def)


lemma valid_message:
  "\<not> message_missing m \<Longrightarrow> \<exists>text. m = Some text \<and> trim text \<noteq> []"
  by (cases m) (simp_all add: message_missing_def)

lemma findOne_save:
  assumes "findOne st cid uid = Some c" "chat_id c' = cid" "userId c' = uid"
  shows "findOne (save st c') cid uid = Some c'"
  using assms(1)
proof (induction st)
  case Nil
  then show ?case by (simp add: findOne_def)
next
  case (Cons d st)
  show ?case
  proof (cases "chat_id d = cid")
    case True
    then show ?thesis using assms(2,3) by (simp add: findOne_def save_def)
  next
    case False
    with Cons.prems have "findOne st cid uid = Some c" by (simp add: findOne_def)
    from Cons.IH [OF this] False assms(2) show ?thesis
      by (simp add: findOne_def save_def)
  qed
qed

lemma push_message_simps [simp]:
  "chat_id (push_message c m) = chat_id c" "userId (push_message c m) = userId c"
  "title (push_message c m) = title c" "messages (push_message c m) = messages c @ [m]"
  by (simp_all add: push_message_def)

lemma update_title_simps [simp]:
  "chat_id (update_title c t) = chat_id c" "userId (update_title c t) = userId c"
  "messages (update_title c t) = messages c"
  "title (update_title c t) = (if length (messages c) = 2 then deriveTitle t else title c)"
  by (simp_all add: update_title_def)

lemma finalized_simps [simp]:
  "chat_id (finalized e t c1 reply) = chat_id c1" "userId (finalized e t c1 reply) = userId c1"
  "messages (finalized e t c1 reply) = messages c1 @ [assistant_message e reply]"
  "title (finalized e t c1 reply) = (if length (messages c1) = 1 then deriveTitle t else title c1)"
  by (simp_all add: finalized_def)

lemma run_stream_cases:
  assumes "try_outcome e t um c1 r"
  obtains (early) cs where
      "run_stream st e r =
         (if save_catch_ok e
          then (UserMessage um # map Chunk cs @ [Error (error_message e) error_class],
                save st (push_message c1 (error_message e)))
          else (UserMessage um # map Chunk cs, st))"
  | (reply) cs reply where "\<not> upstream_failed e" "reply \<noteq> []"
      "run_stream st e r =
         (if save_try_ok e
          then (UserMessage um # map Chunk cs
                  @ [Complete (assistant_message e reply) (title (finalized e t c1 reply))],
                save st (finalized e t c1 reply))
          else if save_catch_ok e
          then (UserMessage um # map Chunk cs @ [Error (error_message e) error_class],
                save st (push_message (finalized e t c1 reply) (error_message e)))
          else (UserMessage um # map Chunk cs, st))"
proof -
  from assms consider
      cs where "r = Thrown (UserMessage um # map Chunk cs) c1"
    | cs reply where "\<not> upstream_failed e" "reply \<noteq> []"
        "r = finalize e t (UserMessage um # map Chunk cs) c1 reply"
    unfolding try_outcome_def by blast
  then show thesis
  proof cases
    case 1
    then have "run_stream st e r =
         (if save_catch_ok e
          then (UserMessage um # map Chunk cs @ [Error (error_message e) error_class],
                save st (push_message c1 (error_message e)))
          else (UserMessage um # map Chunk cs, st))"
      by (simp add: run_stream_def catch_branch_def Let_def error_message_def)
    then show thesis by (rule early)
  next
    case 2
    from 2(3) have "run_stream st e r =
         (if save_try_ok e
          then (UserMessage um # map Chunk cs
                  @ [Complete (assistant_message e reply) (title (finalized e t c1 reply))],
                save st (finalized e t c1 reply))
          else if save_catch_ok e
          then (UserMessage um # map Chunk cs @ [Error (error_message e) error_class],
                save st (push_message (finalized e t c1 reply) (error_message e)))
          else (UserMessage um # map Chunk cs, st))"
      by (simp add: finalize_eq run_stream_def catch_branch_def Let_def error_message_def)
    with 2(1,2) show thesis by (rule reply)
  qed
qed

lemma handler_run:
  assumes "auth_userId rq = Some uid" "findOne st (param_chatId rq) uid = Some c"
    "body_message rq = Some t" "trim t \<noteq> []" "handler = POST_simulate \<or> handler = POST_stream"
  obtains um r where "role um = User" "content um = trim t" "try_outcome e t um (push_message c um) r"
    "handler st rq e = (Event_stream (fst (run_stream st e r)), snd (run_stream st e r))"
proof -
  from assms(5) show thesis
  proof
    assume h: "handler = POST_simulate"
    let ?um = "user_message e t (body_files rq)"
    show thesis
    proof (rule that [of ?um "simulate_try e t ?um (push_message c ?um)"])
      show "role ?um = User" "content ?um = trim t" by (simp_all add: user_message_def)
      show "try_outcome e t ?um (push_message c ?um) (simulate_try e t ?um (push_message c ?um))"
        by (rule simulate_try_outcome)
      show "handler st rq e = (Event_stream (fst (run_stream st e (simulate_try e t ?um (push_message c ?um)))),
          snd (run_stream st e (simulate_try e t ?um (push_message c ?um))))"
        unfolding h by (rule POST_simulate_valid [OF assms(1,3,4,2)])
    qed
  next
    assume h: "handler = POST_stream"
    let ?um = "user_message e t None"
    show thesis
    proof (rule that [of ?um "stream_try e t ?um (push_message c ?um)"])
      show "role ?um = User" "content ?um = trim t" by (simp_all add: user_message_def)
      show "try_outcome e t ?um (push_message c ?um) (stream_try e t ?um (push_message c ?um))"
        by (rule stream_try_outcome)
      show "handler st rq e = (Event_stream (fst (run_stream st e (stream_try e t ?um (push_message c ?um)))),
          snd (run_stream st e (stream_try e t ?um (push_message c ?um))))"
        unfolding h by (rule POST_stream_valid [OF assms(1,3,4,2)])
    qed
  qed
qed



lemma not_error_prefix [simp]:
  "\<not> list_ex is_error (map Chunk cs)"
  "\<not> list_ex is_error (map Chunk cs @ [Complete am ttl])"
  by (induction cs) simp_all

lemma in_save: "d \<in> set (save st cm) \<Longrightarrow> d = cm \<or> (d \<in> set st \<and> chat_id d \<noteq> chat_id cm)"
  by (auto simp: save_def)

lemma exchange_handler: "exchange rt = POST_simulate \<or> exchange rt = POST_stream"
  by (cases rt) simp_all

lemma exchange_store:
  "snd (exchange rt st rq e) = st \<or>
   (\<exists>c cm. c \<in> set st \<and> snd (exchange rt st rq e) = save st cm \<and> chat_id cm = chat_id c \<and>
      messages cm \<noteq> [] \<and> (title cm = title c \<or> messages c = []))"
proof (cases "auth_userId rq")
  case None
  then show ?thesis by (cases rt) (simp_all add: POST_simulate_def POST_stream_def)
next
  case (Some uid)
  show ?thesis
  proof (cases "message_missing (body_message rq)")
    case True
    with Some show ?thesis
      by (cases rt; cases "body_message rq")
        (simp_all add: POST_simulate_def POST_stream_def message_missing_def)
  next
    case False
    then obtain t where t: "body_message rq = Some t" "trim t \<noteq> []"
      using valid_message by blast
    show ?thesis
    proof (cases "findOne st (param_chatId rq) uid")
      case None
      with Some t show ?thesis by (cases rt) (simp_all add: POST_simulate_def POST_stream_def)
    next
      case found: (Some c)
      have cin: "c \<in> set st" using findOne_SomeD [OF found] by simp
      from handler_run [OF Some found t exchange_handler [of rt], of e]
      obtain um r where out: "try_outcome e t um (push_message c um) r"
        and h: "exchange rt st rq e = (Event_stream (fst (run_stream st e r)), snd (run_stream st e r))"
        by blast
      let ?c1 = "push_message c um"
      have saved: ?thesis
        if "snd (run_stream st e r) = save st cm" "chat_id cm = chat_id c" "messages cm \<noteq> []"
          "title cm = title c \<or> messages c = []" for cm
        using that cin unfolding h by auto
      have kept: ?thesis if "snd (run_stream st e r) = st"
        using that unfolding h by simp
      have fin_title: "title (finalized e t ?c1 reply) = title c \<or> messages c = []" for reply
        by (cases "messages c") simp_all
      from out show ?thesis
      proof (cases rule: run_stream_cases [where st = st])
        case (early cs)
        show ?thesis
        proof (cases "save_catch_ok e")
          case True
          with early have "snd (run_stream st e r) = save st (push_message ?c1 (error_message e))"
            by simp
          then show ?thesis by (rule saved) simp_all
        next
          case False
          with early show ?thesis by (intro kept) simp
        qed
      next
        case (reply cs reply)
        consider "save_try_ok e" | "\<not> save_try_ok e" "save_catch_ok e"
          | "\<not> save_try_ok e" "\<not> save_catch_ok e" by blast
        then show ?thesis
        proof cases
          case 1
          with reply(3) have "snd (run_stream st e r) = save st (finalized e t ?c1 reply)" by simp
          from saved [OF this _ _ fin_title] show ?thesis by simp
        next
          case 2
          with reply(3) have "snd (run_stream st e r)
              = save st (push_message (finalized e t ?c1 reply) (error_message e))" by simp
          from saved [OF this] fin_title [of reply] show ?thesis by simp
        next
          case 3
          with reply(3) show ?thesis by (intro kept) simp
        qed
      qed
    qed
  qed
qed

lemma title_settled_step:
  assumes "title_settled cid ttl st"
  shows "title_settled cid ttl (snd (exchange rt st rq e))"
proof -
  from exchange_store [of rt st rq e]
  consider "snd (exchange rt st rq e) = st"
    | c cm where "c \<in> set st" "snd (exchange rt st rq e) = save st cm" "chat_id cm = chat_id c"
        "messages cm \<noteq> []" "title cm = title c \<or> messages c = []"
    by blast
  then show ?thesis
  proof cases
    case 1
    with assms show ?thesis by simp
  next
    case 2
    have "title d = ttl \<and> messages d \<noteq> []" if d: "d \<in> set (save st cm)" "chat_id d = cid" for d
    proof (cases "d = cm")
      case True
      with d(2) 2(3) have "chat_id c = cid" by simp
      with assms 2(1) have "title c = ttl" "messages c \<noteq> []"
        by (auto simp: title_settled_def)
      with 2(4,5) True show ?thesis by auto
    next
      case False
      with in_save [OF d(1)] have "d \<in> set st" by blast
      with assms d(2) show ?thesis by (auto simp: title_settled_def)
    qed
    then show ?thesis unfolding 2(2) title_settled_def by blast
  qed
qed

lemma title_settled_exchanges:
  "title_settled cid ttl st \<Longrightarrow> title_settled cid ttl (exchanges st xs)"
proof (induction xs arbitrary: st)
  case Nil
  then show ?case by (simp add: exchanges_def)
next
  case (Cons x xs)
  obtain rt rq e where x: "x = (rt, rq, e)" by (cases x)
  have "exchanges st (x # xs) = exchanges (snd (exchange rt st rq e)) xs"
    by (simp add: exchanges_def x)
  with Cons.IH [OF title_settled_step [OF Cons.prems]] show ?case by simp
qed

lemma not_complete_prefix [simp]:
  "\<not> list_ex is_complete (map Chunk cs)"
  "\<not> list_ex is_complete (map Chunk cs @ [Error em cls])"
  by (induction cs) simp_all

section \<open>Words and segments\<close>

lemma is_ws_space [simp]: "is_ws CHR '' ''"
  by (simp add: is_ws_def)

lemma ws_split_all_ws:
  "list_all is_ws b \<Longrightarrow> ws_split w b = (if w = [] then [] else [w])"
  by (induction b arbitrary: w) simp_all

lemma ws_split_append_ws:
  "list_all is_ws b \<Longrightarrow> ws_split w (a @ b) = ws_split w a"
  by (induction a arbitrary: w) (simp_all add: ws_split_all_ws)

lemma ws_split_dropWhile: "ws_split [] (dropWhile is_ws s) = ws_split [] s"
  by (induction s) simp_all

lemma dropWhile_rev_decomp:
  "\<exists>b. list_all is_ws b \<and> s = rev (dropWhile is_ws (rev s)) @ b"
proof -
  have "rev s = takeWhile is_ws (rev s) @ dropWhile is_ws (rev s)" by simp
  then have "s = rev (dropWhile is_ws (rev s)) @ rev (takeWhile is_ws (rev s))"
    by (metis rev_append rev_rev_ident)
  moreover have "list_all is_ws (rev (takeWhile is_ws (rev s)))"
    by (simp add: list_all_iff) (meson set_takeWhileD)
  ultimately show ?thesis by blast
qed

lemma ws_words_trim: "ws_words (trim s) = ws_words s"
proof -
  obtain b where b: "list_all is_ws b"
    "dropWhile is_ws s = rev (dropWhile is_ws (rev (dropWhile is_ws s))) @ b"
    using dropWhile_rev_decomp by blast
  have "ws_split [] (trim s) = ws_split [] (trim s @ b)"
    using b(1) by (simp add: ws_split_append_ws)
  also have "trim s @ b = dropWhile is_ws s"
    using b(2) by (simp add: trim_def)
  finally show ?thesis by (simp add: ws_words_def ws_split_dropWhile)
qed

lemma ws_split_segments:
  assumes "list_all (\<lambda>c. is_ws c \<longrightarrow> c = CHR '' '') u"
  shows "ws_split w u = filter (\<lambda>seg. seg \<noteq> [])
           ((w @ hd (split_on CHR '' '' u)) # tl (split_on CHR '' '' u))"
  using assms
proof (induction u arbitrary: w)
  case Nil
  then show ?case by simp
next
  case (Cons c cs)
  obtain seg segs where segs: "split_on CHR '' '' cs = seg # segs"
    using split_on_nonempty by (cases "split_on CHR '' '' cs") auto
  from Cons.prems have cs: "list_all (\<lambda>c. is_ws c \<longrightarrow> c = CHR '' '') cs" by simp
  show ?case
  proof (cases "c = CHR '' ''")
    case True
    with Cons.IH [OF cs, of "[]"] segs show ?thesis by simp
  next
    case False
    with Cons.prems have "\<not> is_ws c" by simp
    with Cons.IH [OF cs, of "w @ [c]"] segs False show ?thesis by simp
  qed
qed

lemma no_empty_segment:
  assumes "u \<noteq> []" "hd u \<noteq> CHR '' ''" "last u \<noteq> CHR '' ''" "no_double_space u"
  shows "[] \<notin> set (split_on CHR '' '' u)"
  using assms
proof (induction u rule: length_induct)
  case (1 u)
  from "1.prems"(1) obtain x xs where u: "u = x # xs" by (cases u) auto
  with "1.prems"(2) have x: "x \<noteq> CHR '' ''" by simp
  obtain seg segs where segs: "split_on CHR '' '' xs = seg # segs"
    using split_on_nonempty by (cases "split_on CHR '' '' xs") auto
  have "[] \<notin> set segs"
  proof (cases xs)
    case Nil
    with segs show ?thesis by simp
  next
    case (Cons y ys)
    show ?thesis
    proof (cases "y = CHR '' ''")
      case False
      have "[] \<notin> set (split_on CHR '' '' xs)"
      proof (rule "1.IH" [rule_format])
        show "length xs < length u" by (simp add: u)
        show "xs \<noteq> []" "hd xs \<noteq> CHR '' ''" using Cons False by simp_all
        show "last xs \<noteq> CHR '' ''" using "1.prems"(3) u Cons by simp
        show "no_double_space xs" using "1.prems"(4) u Cons by simp
      qed
      with segs show ?thesis by simp
    next
      case True
      have ys: "ys \<noteq> []" using "1.prems"(3) u Cons True by auto
      then obtain z zs where z: "ys = z # zs" by (cases ys) auto
      have "[] \<notin> set (split_on CHR '' '' ys)"
      proof (rule "1.IH" [rule_format])
        show "length ys < length u" by (simp add: u Cons)
        show "ys \<noteq> []" by (rule ys)
        show "hd ys \<noteq> CHR '' ''" using "1.prems"(4) u Cons True z by simp
        show "last ys \<noteq> CHR '' ''" using "1.prems"(3) u Cons ys by simp
        show "no_double_space ys" using "1.prems"(4) u Cons z by simp
      qed
      moreover have "segs = split_on CHR '' '' ys" using segs Cons True by simp
      ultimately show ?thesis by simp
    qed
  qed
  with u x segs show ?case by simp
qed

lemma trim_ends:
  assumes "trim s \<noteq> []"
  shows "\<not> is_ws (hd (trim s))" "\<not> is_ws (last (trim s))"
proof -
  let ?d = "dropWhile is_ws s"
  let ?e = "dropWhile is_ws (rev ?d)"
  from assms have e: "?e \<noteq> []" by (simp add: trim_def)
  have d: "?d \<noteq> []"
  proof
    assume a: "?d = []"
    from e show False unfolding a by simp
  qed
  have "last (trim s) = hd ?e" by (simp only: trim_def last_rev)
  then show "\<not> is_ws (last (trim s))" using e hd_dropWhile by metis
  have "hd (trim s) = last ?e" by (simp only: trim_def hd_rev)
  also have "last ?e = last (rev ?d)"
    using e by (metis append_butlast_last_id append_is_Nil_conv last_appendR takeWhile_dropWhile_id)
  also have "\<dots> = hd ?d" by (simp only: last_rev)
  finally show "\<not> is_ws (hd (trim s))" using d hd_dropWhile by metis
qed

lemma split_trim_words:
  assumes "trim t \<noteq> []" "single_spaced (trim t)"
  shows "split_on CHR '' '' (trim t) = ws_words t"
proof -
  let ?u = "trim t"
  from assms(2) have only: "list_all (\<lambda>c. is_ws c \<longrightarrow> c = CHR '' '') ?u" and nds: "no_double_space ?u"
    by (simp_all add: single_spaced_def)
  have "hd ?u \<noteq> CHR '' ''" "last ?u \<noteq> CHR '' ''"
    using trim_ends [OF assms(1)] by auto
  from no_empty_segment [OF assms(1) this nds]
  have ne: "[] \<notin> set (split_on CHR '' '' ?u)" .
  obtain seg segs where segs: "split_on CHR '' '' ?u = seg # segs"
    using split_on_nonempty by (cases "split_on CHR '' '' ?u") auto
  have "ws_words t = ws_split [] ?u"
    using ws_words_trim [of t] by (simp add: ws_words_def)
  also have "\<dots> = filter (\<lambda>seg. seg \<noteq> []) (split_on CHR '' '' ?u)"
    using ws_split_segments [OF only, of "[]"] segs by simp
  also have "\<dots> = split_on CHR '' '' ?u"
    using ne by (simp add: filter_id_conv) metis
  finally show ?thesis by simp
qed

lemma deriveTitle_spec:
  assumes "trim t \<noteq> []" "single_spaced (trim t)"
  shows "deriveTitle t = spec_title t"
  by (simp add: deriveTitle_def spec_title_def split_trim_words [OF assms])

lemma deriveTitle_length: "length (deriveTitle t) \<le> 50"
  by (simp add: deriveTitle_def Let_def)

section \<open>The example request is valid\<close>

lemma hello_valid:
  "auth_userId hello_request = Some ''alice''"
  "findOne [alice_chat] (param_chatId hello_request) ''alice'' = Some alice_chat"
  "\<not> message_missing (body_message hello_request)"
  by code_simp+

section \<open>The event stream of an exchange\<close>




section \<open>Error recovery\<close>




section \<open>The fallback on an empty stream\<close>



section \<open>Validation of the request text\<close>

lemma POST_simulate_400:
  assumes "auth_userId rq = Some uid"
  shows "message_missing (body_message rq) \<Longrightarrow>
           POST_simulate st rq e = (Text_response 400 ''Message is required'', st)"
    and "\<not> message_missing (body_message rq) \<Longrightarrow> status_of (fst (POST_simulate st rq e)) \<noteq> 400"
proof -
  show "POST_simulate st rq e = (Text_response 400 ''Message is required'', st)"
    if "message_missing (body_message rq)"
    using that assms by (cases "body_message rq") (simp_all add: POST_simulate_def message_missing_def)
  show "status_of (fst (POST_simulate st rq e)) \<noteq> 400" if "\<not> message_missing (body_message rq)"
  proof -
    from that obtain t where t: "body_message rq = Some t" "trim t \<noteq> []"
      using valid_message by blast
    show ?thesis
    proof (cases "findOne st (param_chatId rq) uid")
      case None
      with assms t show ?thesis by (simp add: POST_simulate_def)
    next
      case (Some c)
      from POST_simulate_valid [OF assms t Some] show ?thesis by simp
    qed
  qed
qed

lemma POST_stream_400:
  assumes "auth_userId rq = Some uid"
  shows "message_missing (body_message rq) \<Longrightarrow>
           POST_stream st rq e = (Text_response 400 ''Message is required'', st)"
    and "\<not> message_missing (body_message rq) \<Longrightarrow> status_of (fst (POST_stream st rq e)) \<noteq> 400"
proof -
  show "POST_stream st rq e = (Text_response 400 ''Message is required'', st)"
    if "message_missing (body_message rq)"
    using that assms by (cases "body_message rq") (simp_all add: POST_stream_def message_missing_def)
  show "status_of (fst (POST_stream st rq e)) \<noteq> 400" if "\<not> message_missing (body_message rq)"
  proof -
    from that obtain t where t: "body_message rq = Some t" "trim t \<noteq> []"
      using valid_message by blast
    show ?thesis
    proof (cases "findOne st (param_chatId rq) uid")
      case None
      with assms t show ?thesis by (simp add: POST_stream_def)
    next
      case (Some c)
      from POST_stream_valid [OF assms t Some] show ?thesis by simp
    qed
  qed
qed

lemma POST_messages_entry_400:
  assumes "auth_userId rq = Some uid"
  shows "message_missing (body_message rq) \<Longrightarrow>
           POST_messages_entry st rq e = Inl (Json_error 400 ''Message is required'', st)"
    and "\<not> message_missing (body_message rq) \<Longrightarrow>
           POST_messages_entry st rq e = Inl (resp, s) \<Longrightarrow> status_of resp \<noteq> 400"
proof -
  show "POST_messages_entry st rq e = Inl (Json_error 400 ''Message is required'', st)"
    if "message_missing (body_message rq)"
    using that assms by (cases "body_message rq") (simp_all add: POST_messages_entry_def message_missing_def)
  show "status_of resp \<noteq> 400"
    if "\<not> message_missing (body_message rq)" "POST_messages_entry st rq e = Inl (resp, s)"
  proof -
    from that(1) obtain t where t: "body_message rq = Some t" "trim t \<noteq> []"
      using valid_message by blast
    show ?thesis
    proof (cases "findOne st (param_chatId rq) uid")
      case None
      with assms t that(2) have "resp = Json_error 404 ''Chat not found''"
        by (simp add: POST_messages_entry_def)
      then show ?thesis by simp
    next
      case (Some c)
      with assms t that(2) show ?thesis by (simp add: POST_messages_entry_def)
    qed
  qed
qed

text \<open>
  Claim C3, as amended. For an authenticated caller each exchange handler rejects with
  status 400 exactly when the text is missing, empty or made of white space only,
  whether or not attachments are present, and such a rejection leaves the store as
  it was and enqueues no event.
\<close>

theorem blank_text_rejected:
  assumes "auth_userId rq = Some uid"
  shows "(status_of (fst (POST_simulate st rq e)) = 400 \<longleftrightarrow> message_missing (body_message rq)) \<and>
         (status_of (fst (POST_stream st rq e)) = 400 \<longleftrightarrow> message_missing (body_message rq)) \<and>
         (message_missing (body_message rq) \<longrightarrow>
            POST_simulate st rq e = (Text_response 400 ''Message is required'', st) \<and>
            POST_stream st rq e = (Text_response 400 ''Message is required'', st) \<and>
            POST_messages_entry st rq e = Inl (Json_error 400 ''Message is required'', st)) \<and>
         (\<not> message_missing (body_message rq) \<longrightarrow>
            (\<forall>resp s. POST_messages_entry st rq e = Inl (resp, s) \<longrightarrow> status_of resp \<noteq> 400))"
proof (cases "message_missing (body_message rq)")
  case True
  note a = POST_simulate_400(1) [OF assms True, of st e]
  note b = POST_stream_400(1) [OF assms True, of st e]
  note c = POST_messages_entry_400(1) [OF assms True, of st e]
  have "status_of (fst (POST_simulate st rq e)) = 400" "status_of (fst (POST_stream st rq e)) = 400"
    unfolding a b by simp_all
  with True a b c show ?thesis by blast
next
  case False
  note a = POST_simulate_400(2) [OF assms False, of st e]
  note b = POST_stream_400(2) [OF assms False, of st e]
  note c = POST_messages_entry_400(2) [OF assms False, of st e]
  from False a b c show ?thesis by blast
qed

theorem blank_text_rejected_witness:
  "auth_userId files_only_request = Some ''alice'' \<and>
   message_missing (body_message files_only_request) \<and>
   status_of (fst (POST_simulate [alice_chat] files_only_request env_ok)) = 400 \<and>
   POST_simulate [alice_chat] files_only_request env_ok
     = (Text_response 400 ''Message is required'', [alice_chat]) \<and>
   POST_stream [alice_chat] files_only_request env_ok
     = (Text_response 400 ''Message is required'', [alice_chat]) \<and>
   POST_messages_entry [alice_chat] files_only_request env_ok
     = Inl (Json_error 400 ''Message is required'', [alice_chat]) \<and>
   auth_userId unknown_chat_request = Some ''alice'' \<and>
   \<not> message_missing (body_message unknown_chat_request) \<and>
   POST_messages_entry [alice_chat] unknown_chat_request env_ok
     = Inl (Json_error 404 ''Chat not found'', [alice_chat]) \<and>
   status_of (Json_error 404 ''Chat not found'') \<noteq> 400 \<and>
   status_of (fst (POST_simulate [alice_chat] unknown_chat_request env_ok)) \<noteq> 400"
proof -
  have a: "auth_userId files_only_request = Some ''alice''" by (simp add: files_only_request_def)
  have m: "message_missing (body_message files_only_request)" by code_simp
  have a': "auth_userId unknown_chat_request = Some ''alice''" by (simp add: unknown_chat_request_def)
  have m': "\<not> message_missing (body_message unknown_chat_request)" by code_simp
  have p: "POST_messages_entry [alice_chat] unknown_chat_request env_ok
      = Inl (Json_error 404 ''Chat not found'', [alice_chat])" by code_simp
  note blank = blank_text_rejected [OF a, of "[alice_chat]" env_ok]
  note other = blank_text_rejected [OF a', of "[alice_chat]" env_ok]
  from blank m have 1: "status_of (fst (POST_simulate [alice_chat] files_only_request env_ok)) = 400"
    by blast
  from blank m have 2: "POST_simulate [alice_chat] files_only_request env_ok
       = (Text_response 400 ''Message is required'', [alice_chat])"
    "POST_stream [alice_chat] files_only_request env_ok
       = (Text_response 400 ''Message is required'', [alice_chat])"
    "POST_messages_entry [alice_chat] files_only_request env_ok
       = Inl (Json_error 400 ''Message is required'', [alice_chat])"
    by blast+
  from other m' p have 3: "status_of (Json_error 404 ''Chat not found'') \<noteq> 400"
    by blast
  from other m' have 4: "status_of (fst (POST_simulate [alice_chat] unknown_chat_request env_ok)) \<noteq> 400"
    by blast
  from a m 1 2 a' m' p 3 4 show ?thesis by (intro conjI)
qed

text \<open>
  The claim as stated fails: a request with an attachment and an empty text is rejected
  with status 400 like any request with a blank text.
\<close>

theorem attachment_without_text_counterexample:
  "auth_userId files_only_request = Some ''alice'' \<and>
   findOne [alice_chat] (param_chatId files_only_request) ''alice'' = Some alice_chat \<and>
   body_message files_only_request = Some [] \<and>
   body_files files_only_request = Some [report_file] \<and>
   POST_simulate [alice_chat] files_only_request env_ok
     = (Text_response 400 ''Message is required'', [alice_chat])"
proof -
  have "auth_userId files_only_request = Some ''alice''"
    "findOne [alice_chat] (param_chatId files_only_request) ''alice'' = Some alice_chat"
    "body_message files_only_request = Some []"
    "body_files files_only_request = Some [report_file]"
    by (simp_all add: files_only_request_def findOne_def alice_chat_def)
  moreover have "POST_simulate [alice_chat] files_only_request env_ok
     = (Text_response 400 ''Message is required'', [alice_chat])"
    by code_simp
  ultimately show ?thesis by (intro conjI)
qed

section \<open>The title after a failed first exchange\<close>

text \<open>
  Claim C10, as amended. When an exchange of a streaming handler ends in an \<open>error\<close>
  event and the store write of its \<open>try\<close> block did not fail (so the failure came
  before the reply was pushed), the conversation is persisted with the user message
  and the error message appended and with its title unchanged: after a first exchange
  it has two messages and its creation-time title. No later exchange through these
  handlers, whatever its outcome, changes the title of that conversation, since the
  title rule asks for exactly two messages.
\<close>

theorem title_kept_after_upstream_failure:
  assumes "auth_userId rq = Some uid" "findOne st cid uid = Some c" "param_chatId rq = cid"
    "\<not> message_missing (body_message rq)"
    "exchange rt st rq e = (Event_stream evs, st')" "list_ex is_error evs" "save_try_ok e"
  shows "\<exists>c' um. findOne st' cid uid = Some c' \<and> title c' = title c \<and>
           messages c' = messages c @ [um, error_message e] \<and>
           (\<forall>later. \<forall>d \<in> set (exchanges st' later). chat_id d = cid \<longrightarrow> title d = title c)"
proof -
  from assms(4) obtain t where t: "body_message rq = Some t" "trim t \<noteq> []"
    using valid_message by blast
  note found = assms(2) [folded assms(3)]
  from handler_run [OF assms(1) found t exchange_handler [of rt], of e]
  obtain um r where out: "try_outcome e t um (push_message c um) r"
    and h: "exchange rt st rq e = (Event_stream (fst (run_stream st e r)), snd (run_stream st e r))"
    by blast
  from h assms(5) have evs: "evs = fst (run_stream st e r)" and st': "st' = snd (run_stream st e r)"
    by simp_all
  let ?c' = "push_message (push_message c um) (error_message e)"
  have ids: "chat_id c = cid" "userId c = uid"
    using findOne_SomeD [OF assms(2)] by simp_all
  from out have "st' = save st ?c'"
  proof (cases rule: run_stream_cases [where st = st])
    case (early cs)
    show ?thesis
    proof (cases "save_catch_ok e")
      case True
      with early st' show ?thesis by simp
    next
      case False
      with early evs assms(6) show ?thesis by simp
    qed
  next
    case (reply cs reply)
    with assms(7) evs assms(6) show ?thesis by simp
  qed
  have 1: "findOne st' cid uid = Some ?c'"
    unfolding \<open>st' = save st ?c'\<close> using findOne_save [OF assms(2)] ids by simp
  have "title d = title c \<and> messages d \<noteq> []" if "d \<in> set (save st ?c')" "chat_id d = cid" for d
  proof -
    from in_save [OF that(1)] that(2) ids(1) have "d = ?c'" by simp
    then show ?thesis by simp
  qed
  then have "title_settled cid (title c) st'"
    unfolding \<open>st' = save st ?c'\<close> title_settled_def by blast
  then have "title_settled cid (title c) (exchanges st' later)" for later
    by (rule title_settled_exchanges)
  then have 2: "\<forall>later. \<forall>d \<in> set (exchanges st' later). chat_id d = cid \<longrightarrow> title d = title c"
    unfolding title_settled_def by blast
  from 1 2 show ?thesis
    by (intro exI [of _ ?c'] exI [of _ um]) simp
qed

theorem title_kept_after_upstream_failure_witness:
  "auth_userId hello_request = Some ''alice'' \<and>
   findOne [alice_chat] ''c1'' ''alice'' = Some alice_chat \<and>
   param_chatId hello_request = ''c1'' \<and>
   \<not> message_missing (body_message hello_request) \<and>
   exchange Simulate_stream [alice_chat] hello_request env_upstream_down
     = (Event_stream failed_events, [failed_chat]) \<and>
   list_ex is_error failed_events \<and> save_try_ok env_upstream_down \<and>
   findOne [failed_chat] ''c1'' ''alice'' = Some failed_chat \<and>
   title failed_chat = title alice_chat \<and> length (messages failed_chat) = 2 \<and>
   exchanges [failed_chat] [(Simulate_stream, hello_request, env_ok)] = [later_chat] \<and>
   chat_id later_chat = ''c1'' \<and> title later_chat = title alice_chat"
proof -
  have f: "findOne [alice_chat] ''c1'' ''alice'' = Some alice_chat"
    by (simp add: findOne_def alice_chat_def)
  have c: "param_chatId hello_request = ''c1''" by (simp add: hello_request_def)
  have p: "exchange Simulate_stream [alice_chat] hello_request env_upstream_down
      = (Event_stream failed_events, [failed_chat])" by code_simp
  have e: "list_ex is_error failed_events" by (simp add: failed_events_def)
  have s: "save_try_ok env_upstream_down" by (simp add: env_upstream_down_def)
  have f': "findOne [failed_chat] ''c1'' ''alice'' = Some failed_chat"
    by (simp add: findOne_def failed_chat_def)
  have n: "length (messages failed_chat) = 2" by (simp add: failed_chat_def)
  have x: "exchanges [failed_chat] [(Simulate_stream, hello_request, env_ok)] = [later_chat]"
    by code_simp
  have i: "chat_id later_chat = ''c1''" by (simp add: later_chat_def)
  from title_kept_after_upstream_failure [OF hello_valid(1) f c hello_valid(3) p e s]
  obtain c' where "findOne [failed_chat] ''c1'' ''alice'' = Some c'" and t: "title c' = title alice_chat"
    and l: "\<forall>later. \<forall>d \<in> set (exchanges [failed_chat] later). chat_id d = ''c1'' \<longrightarrow> title d = title alice_chat"
    by blast
  with f' have "c' = failed_chat" by simp
  with t have 1: "title failed_chat = title alice_chat" by simp
  from l have "\<forall>d \<in> set (exchanges [failed_chat] [(Simulate_stream, hello_request, env_ok)]).
      chat_id d = ''c1'' \<longrightarrow> title d = title alice_chat"
    by (rule spec)
  then have 2: "title later_chat = title alice_chat" unfolding x using i by simp
  from hello_valid(1) f c hello_valid(3) p e s f' 1 n x i 2 show ?thesis by (intro conjI)
qed

text \<open>
  The claim as stated fails when the store rejects the write of the \<open>try\<close> block and
  accepts the write of the \<open>catch\<close> branch: the title derived in memory before the first
  write is persisted by the second, with three messages, on the error path.
\<close>

theorem title_changed_on_error_path_counterexample:
  "auth_userId hello_request = Some ''alice'' \<and>
   findOne [alice_chat] (param_chatId hello_request) ''alice'' = Some alice_chat \<and>
   \<not> message_missing (body_message hello_request) \<and>
   POST_simulate [alice_chat] hello_request env_store_flaky
     = (Event_stream flaky_events, [flaky_chat]) \<and>
   list_ex is_error flaky_events \<and> messages alice_chat = [] \<and>
   title alice_chat = ''New Chat'' \<and> title flaky_chat = ''Hello there'' \<and>
   length (messages flaky_chat) = 3"
proof -
  have p: "POST_simulate [alice_chat] hello_request env_store_flaky
      = (Event_stream flaky_events, [flaky_chat])" by code_simp
  have e: "list_ex is_error flaky_events" by (simp add: flaky_events_def)
  have t: "messages alice_chat = []" "title alice_chat = ''New Chat''" "title flaky_chat = ''Hello there''"
    "length (messages flaky_chat) = 3"
    by (simp_all add: alice_chat_def flaky_chat_def)
  from hello_valid p e t show ?thesis by (intro conjI)
qed

section \<open>Title derivation\<close>

text \<open>
  Claim C6, as amended. An exchange that completes overwrites the title exactly when it
  brings the conversation to its second message, and leaves it alone otherwise. The
  new title is made of the first six segments of the trimmed text of that first
  message, split at every single space and joined by spaces again; this prefix is cut
  to its first 47 characters and \<open>...\<close> when longer than 50 characters and is used as
  it is otherwise, so no title is longer than 50. The segments are the first six
  white-space separated words whenever the trimmed text is single-spaced.
\<close>

theorem title_derivation:
  assumes "auth_userId rq = Some uid" "findOne st (param_chatId rq) uid = Some c"
    "body_message rq = Some t" "trim t \<noteq> []" "handler = POST_simulate \<or> handler = POST_stream"
    "handler st rq e = (Event_stream evs, st')" "list_ex is_complete evs"
  shows "\<exists>c' um am. findOne st' (param_chatId rq) uid = Some c' \<and>
           messages c' = messages c @ [um, am] \<and>
           title c' = (if messages c = [] then deriveTitle t else title c) \<and>
           last evs = Complete am (title c') \<and>
           deriveTitle t = (if length (first_segments t) > 50
                            then take 47 (first_segments t) @ ''...'' else first_segments t) \<and>
           length (deriveTitle t) \<le> 50 \<and>
           (single_spaced (trim t) \<longrightarrow> deriveTitle t = spec_title t)"
proof -
  from handler_run [OF assms(1,2,3,4,5), of e]
  obtain um r where out: "try_outcome e t um (push_message c um) r"
    and h: "handler st rq e = (Event_stream (fst (run_stream st e r)), snd (run_stream st e r))"
    by blast
  from h assms(6) have evs: "evs = fst (run_stream st e r)" and st': "st' = snd (run_stream st e r)"
    by simp_all
  have ids: "chat_id c = param_chatId rq" "userId c = uid"
    using findOne_SomeD [OF assms(2)] by simp_all
  let ?c1 = "push_message c um"
  from out obtain cs reply where
    run: "run_stream st e r =
         (UserMessage um # map Chunk cs
            @ [Complete (assistant_message e reply) (title (finalized e t ?c1 reply))],
          save st (finalized e t ?c1 reply))"
  proof (cases rule: run_stream_cases [where st = st])
    case (early cs)
    with evs assms(7) have False by (cases "save_catch_ok e") simp_all
    then show ?thesis ..
  next
    case (reply cs reply)
    show ?thesis
    proof (cases "save_try_ok e")
      case True
      with reply(3) that show ?thesis by simp
    next
      case False
      with reply(3) evs assms(7) have False by (cases "save_catch_ok e") simp_all
      then show ?thesis ..
    qed
  qed
  let ?cf = "finalized e t ?c1 reply"
  let ?am = "assistant_message e reply"
  have 1: "findOne st' (param_chatId rq) uid = Some ?cf"
    unfolding st' run using findOne_save [OF assms(2)] ids by simp
  have 2: "messages ?cf = messages c @ [um, ?am]" by simp
  have 3: "title ?cf = (if messages c = [] then deriveTitle t else title c)"
    by (cases "messages c") simp_all
  have 4: "last evs = Complete ?am (title ?cf)"
    unfolding evs run by simp
  have 5: "single_spaced (trim t) \<longrightarrow> deriveTitle t = spec_title t"
    using deriveTitle_spec [OF assms(4)] by blast
  have 6: "deriveTitle t = (if length (first_segments t) > 50
      then take 47 (first_segments t) @ ''...'' else first_segments t)"
    by (simp add: deriveTitle_def first_segments_def Let_def)
  from 1 2 3 4 5 6 deriveTitle_length [of t] show ?thesis by blast
qed

theorem title_derivation_witness:
  "auth_userId recursion_request = Some ''alice'' \<and>
   findOne [alice_chat] (param_chatId recursion_request) ''alice'' = Some alice_chat \<and>
   body_message recursion_request = Some recursion_text \<and> trim recursion_text \<noteq> [] \<and>
   POST_simulate [alice_chat] recursion_request env_ok = (Event_stream recursion_events, [recursion_chat]) \<and>
   list_ex is_complete recursion_events \<and> messages alice_chat = [] \<and>
   single_spaced (trim recursion_text) \<and>
   findOne [recursion_chat] (param_chatId recursion_request) ''alice'' = Some recursion_chat \<and>
   title recursion_chat = deriveTitle recursion_text \<and>
   deriveTitle recursion_text = spec_title recursion_text \<and>
   deriveTitle recursion_text = ''Can you help me understand recursion'' \<and>
   length (first_segments long_text) = 92 \<and>
   deriveTitle long_text = ''Supercalifragilistic expialidocious antidisesta...''"
proof -
  have a: "auth_userId recursion_request = Some ''alice''"
    "findOne [alice_chat] (param_chatId recursion_request) ''alice'' = Some alice_chat"
    "body_message recursion_request = Some recursion_text"
    by (simp_all add: recursion_request_def findOne_def alice_chat_def)
  have t: "trim recursion_text \<noteq> []" by code_simp
  have p: "POST_simulate [alice_chat] recursion_request env_ok = (Event_stream recursion_events, [recursion_chat])"
    by code_simp
  have c: "list_ex is_complete recursion_events" by (simp add: recursion_events_def)
  have m: "messages alice_chat = []" by (simp add: alice_chat_def)
  have s: "single_spaced (trim recursion_text)" by code_simp
  have f: "findOne [recursion_chat] (param_chatId recursion_request) ''alice'' = Some recursion_chat"
    by (simp add: findOne_def recursion_request_def recursion_chat_def)
  have d: "deriveTitle recursion_text = ''Can you help me understand recursion''" by code_simp
  from title_derivation [OF a t disjI1 [OF refl] p c]
  obtain c' where "findOne [recursion_chat] (param_chatId recursion_request) ''alice'' = Some c'"
    and tl: "title c' = (if messages alice_chat = [] then deriveTitle recursion_text else title alice_chat)"
    and sp: "single_spaced (trim recursion_text) \<longrightarrow> deriveTitle recursion_text = spec_title recursion_text"
    by blast
  with f have "c' = recursion_chat" by simp
  with tl m have 1: "title recursion_chat = deriveTitle recursion_text" by simp
  from sp s have 2: "deriveTitle recursion_text = spec_title recursion_text" by blast
  have lg: "length (first_segments long_text) = 92"
    "deriveTitle long_text = ''Supercalifragilistic expialidocious antidisesta...''"
    by code_simp+
  from a t p c m s f 1 2 d lg show ?thesis by (intro conjI)
qed

text \<open>
  The claim as stated fails twice. With two spaces in a row the title is not made of
  the first six words, an empty segment taking the place of one; and a conversation
  whose first exchange fails reaches its second message with its title not overwritten.
\<close>

theorem title_words_counterexample:
  "deriveTitle double_spaced_text = ''a  b c d e'' \<and>
   spec_title double_spaced_text = ''a b c d e f'' \<and>
   POST_simulate [alice_chat] hello_request env_upstream_down
     = (Event_stream failed_events, [failed_chat]) \<and>
   length (messages failed_chat) = 2 \<and> title failed_chat = title alice_chat"
proof -
  have "deriveTitle double_spaced_text = ''a  b c d e''" by code_simp
  moreover have "spec_title double_spaced_text = ''a b c d e f''" by code_simp
  moreover have "POST_simulate [alice_chat] hello_request env_upstream_down
     = (Event_stream failed_events, [failed_chat])" by code_simp
  moreover have "length (messages failed_chat) = 2" "title failed_chat = title alice_chat"
    by (simp_all add: failed_chat_def alice_chat_def)
  ultimately show ?thesis by (intro conjI)
qed

section \<open>Regeneration\<close>

lemma regenerate_flag_not_sent:
  "snd (sendMessage br st e h message filesArg True) = snd (sendMessage br st e h message filesArg False)"
proof (cases "hook_chatId h")
  case None
  then show ?thesis by (simp add: sendMessage_def)
next
  case (Some cid)
  show ?thesis
  proof (cases "trim message = []")
    case True
    with Some show ?thesis by (simp add: sendMessage_def)
  next
    case False
    define rq where "rq = \<lparr>auth_userId = session_user br, param_chatId = cid,
      body_message = Some (trim message),
      body_files = (case filesArg of
                      Files_array fs \<Rightarrow> if fs \<noteq> [] then file_service br fs else None
                    | _ \<Rightarrow> None)\<rparr>"
    have "snd (sendMessage br st e h message filesArg flag) = snd (POST_simulate st rq e)" for flag
      using Some False
      by (simp add: sendMessage_def Let_def rq_def split: prod.split response.split)
    then show ?thesis by simp
  qed
qed

text \<open>
  Claim C4, on the code. The request of \<open>sendMessage\<close> carries no regenerate flag, and the
  handler pushes the user message of every request. With the conversation ending in
  the question \<open>2+2?\<close> and the answer \<open>4\<close>, sending in regenerate mode leaves the working
  view with one answer, while the conversation the server persists has the question
  appended again and both answers. The Regenerate button passes \<open>true\<close> as \<open>files\<close>, so
  it sends as for a new message and the working view gets the duplicate as well.
\<close>

theorem regenerate_persists_duplicate:
  "sendMessage alice_browser [math_chat] env_four math_hook ''2+2?'' Files_undefined True
     = (math_hook\<lparr>view := Some regenerated_view\<rparr>, [regenerated_chat]) \<and>
   messages math_chat = [question, answer_4] \<and>
   messages regenerated_view = [question, answer_four] \<and>
   messages regenerated_chat = [question, answer_4, question_again, answer_four] \<and>
   onRegenerateResponse alice_browser [math_chat] env_four math_hook
     = (math_hook\<lparr>view := Some regenerated_chat\<rparr>, [regenerated_chat])"
proof -
  have "sendMessage alice_browser [math_chat] env_four math_hook ''2+2?'' Files_undefined True
     = (math_hook\<lparr>view := Some regenerated_view\<rparr>, [regenerated_chat])"
    by code_simp
  moreover have "onRegenerateResponse alice_browser [math_chat] env_four math_hook
     = (math_hook\<lparr>view := Some regenerated_chat\<rparr>, [regenerated_chat])"
    by code_simp
  moreover have "messages math_chat = [question, answer_4]"
    "messages regenerated_view = [question, answer_four]"
    "messages regenerated_chat = [question, answer_4, question_again, answer_four]"
    by (simp_all add: math_chat_def regenerated_view_def regenerated_chat_def)
  ultimately show ?thesis by (intro conjI)
qed

section \<open>Ownership isolation\<close>

lemma unique_id_other_owner:
  assumes "distinct (map chat_id st)" "c \<in> set st" "chat_id c = cid" "userId c \<noteq> uid"
  shows "findOne st cid uid = None"
proof -
  have "inj_on chat_id (set st)"
    using assms(1) by (simp add: distinct_map)
  then have "d = c" if "d \<in> set st" "chat_id d = cid" for d
    using assms(2,3) that by (auto dest: inj_onD)
  with assms(4) show ?thesis by (auto simp: findOne_None_iff)
qed

lemma GET_chat_found:
  "GET_chat st (Some uid) cid = Json_chat d \<longleftrightarrow> findOne st cid uid = Some d"
  by (simp add: GET_chat_def split: option.split)

lemma DELETE_chat_not_found:
  "findOne st cid uid = None \<Longrightarrow>
     DELETE_chat st (Some uid) cid = (Json_error 404 ''Chat not found'', st)"
  by (simp add: DELETE_chat_def findOneAndDelete_eq)

lemma DELETE_chat_found:
  "findOne st cid uid = Some d \<Longrightarrow> DELETE_chat st (Some uid) cid = (Json_deleted, remove1 d st)"
  by (simp add: DELETE_chat_def findOneAndDelete_eq)

text \<open>
  Claim C9. For every conversation id and owner id, the owned lookup (\<open>GET\<close>) and the
  owned delete (\<open>DELETE\<close>) answer not-found when a conversation with that id exists
  but belongs to another owner; a conversation is returned or deleted only when both
  its id and its owner match, and a delete removes that conversation alone.
\<close>

theorem owned_lookup_isolation:
  assumes "distinct (map chat_id st)"
  shows "((\<exists>c \<in> set st. chat_id c = cid \<and> userId c \<noteq> uid) \<longrightarrow>
            GET_chat st (Some uid) cid = Json_error 404 ''Chat not found'' \<and>
            DELETE_chat st (Some uid) cid = (Json_error 404 ''Chat not found'', st)) \<and>
         (\<forall>d. GET_chat st (Some uid) cid = Json_chat d \<longrightarrow>
            d \<in> set st \<and> chat_id d = cid \<and> userId d = uid) \<and>
         (\<forall>st'. DELETE_chat st (Some uid) cid = (Json_deleted, st') \<longrightarrow>
            (\<exists>d \<in> set st. chat_id d = cid \<and> userId d = uid \<and> st' = remove1 d st))"
proof (intro conjI impI allI)
  assume "\<exists>c \<in> set st. chat_id c = cid \<and> userId c \<noteq> uid"
  then obtain c where "c \<in> set st" "chat_id c = cid" "userId c \<noteq> uid"
    by (elim bexE conjE)
  then have none: "findOne st cid uid = None"
    by (rule unique_id_other_owner [OF assms])
  show "GET_chat st (Some uid) cid = Json_error 404 ''Chat not found''"
    by (simp add: GET_chat_def none)
  show "DELETE_chat st (Some uid) cid = (Json_error 404 ''Chat not found'', st)"
    using none by (rule DELETE_chat_not_found)
next
  fix d assume "GET_chat st (Some uid) cid = Json_chat d"
  then have "findOne st cid uid = Some d"
    by (simp only: GET_chat_found)
  then have "d \<in> set st \<and> chat_id d = cid \<and> userId d = uid"
    by (rule findOne_SomeD)
  then show "d \<in> set st" "chat_id d = cid" "userId d = uid"
    by simp_all
next
  fix st' assume del: "DELETE_chat st (Some uid) cid = (Json_deleted, st')"
  show "\<exists>d \<in> set st. chat_id d = cid \<and> userId d = uid \<and> st' = remove1 d st"
  proof (cases "findOne st cid uid")
    case None
    from DELETE_chat_not_found [OF None] del show ?thesis by simp
  next
    case (Some d)
    from DELETE_chat_found [OF Some] del have "st' = remove1 d st" by simp
    with findOne_SomeD [OF Some] show ?thesis by (intro bexI [of _ d]) simp_all
  qed
qed

theorem owned_lookup_isolation_witness:
  "distinct (map chat_id [alice_chat, bob_chat]) \<and>
   (\<exists>c \<in> set [alice_chat, bob_chat]. chat_id c = ''c1'' \<and> userId c \<noteq> ''bob'') \<and>
   GET_chat [alice_chat, bob_chat] (Some ''bob'') ''c1'' = Json_error 404 ''Chat not found'' \<and>
   DELETE_chat [alice_chat, bob_chat] (Some ''bob'') ''c1''
     = (Json_error 404 ''Chat not found'', [alice_chat, bob_chat]) \<and>
   GET_chat [alice_chat, bob_chat] (Some ''alice'') ''c1'' = Json_chat alice_chat \<and>
   userId alice_chat = ''alice'' \<and>
   DELETE_chat [alice_chat, bob_chat] (Some ''alice'') ''c1'' = (Json_deleted, [bob_chat]) \<and>
   (\<exists>d \<in> set [alice_chat, bob_chat]. userId d = ''alice'' \<and> [bob_chat] = remove1 d [alice_chat, bob_chat])"
proof -
  let ?st = "[alice_chat, bob_chat]"
  have d: "distinct (map chat_id ?st)"
    by (simp add: alice_chat_def bob_chat_def)
  have ex: "\<exists>c \<in> set ?st. chat_id c = ''c1'' \<and> userId c \<noteq> ''bob''"
    by (simp add: alice_chat_def)
  have g: "GET_chat ?st (Some ''alice'') ''c1'' = Json_chat alice_chat"
    by (simp add: GET_chat_def findOne_def alice_chat_def)
  have del: "DELETE_chat ?st (Some ''alice'') ''c1'' = (Json_deleted, [bob_chat])"
    by (simp add: DELETE_chat_def alice_chat_def)
  note bob = owned_lookup_isolation [OF d, where cid = "''c1''" and uid = "''bob''"]
  note alice = owned_lookup_isolation [OF d, where cid = "''c1''" and uid = "''alice''"]
  from bob have "(\<exists>c \<in> set ?st. chat_id c = ''c1'' \<and> userId c \<noteq> ''bob'') \<longrightarrow>
      GET_chat ?st (Some ''bob'') ''c1'' = Json_error 404 ''Chat not found'' \<and>
      DELETE_chat ?st (Some ''bob'') ''c1'' = (Json_error 404 ''Chat not found'', ?st)"
    by (rule conjunct1)
  with ex have p1: "GET_chat ?st (Some ''bob'') ''c1'' = Json_error 404 ''Chat not found'' \<and>
      DELETE_chat ?st (Some ''bob'') ''c1'' = (Json_error 404 ''Chat not found'', ?st)"
    by (rule rev_mp)
  from alice have "\<forall>x. GET_chat ?st (Some ''alice'') ''c1'' = Json_chat x \<longrightarrow>
      x \<in> set ?st \<and> chat_id x = ''c1'' \<and> userId x = ''alice''"
    by (elim conjE)
  with g have p2: "userId alice_chat = ''alice''"
    by (elim allE [of _ alice_chat]) (elim impE, assumption, elim conjE)
  from alice have "\<forall>st'. DELETE_chat ?st (Some ''alice'') ''c1'' = (Json_deleted, st') \<longrightarrow>
      (\<exists>x \<in> set ?st. chat_id x = ''c1'' \<and> userId x = ''alice'' \<and> st' = remove1 x ?st)"
    by (elim conjE)
  with del have "\<exists>x \<in> set ?st. chat_id x = ''c1'' \<and> userId x = ''alice'' \<and> [bob_chat] = remove1 x ?st"
    by (elim allE [of _ "[bob_chat]"]) (elim impE, assumption)
  then have p3: "\<exists>x \<in> set ?st. userId x = ''alice'' \<and> [bob_chat] = remove1 x ?st"
    by (elim bexE conjE, intro bexI conjI)
  from d ex p1 g p2 del p3 show ?thesis
    by (intro conjI) (elim conjE, assumption)+
qed

end
